theory Spec2Isabelle
  imports Complex_Main "HOL-Library.AList"
begin

section \<open>Configuration (config/config.py)\<close>

text \<open>
  The access-control settings the matcher reads. They are module constants in the
  source; here they are the fields of a record, so that both policy modes and any
  window can be stated. \<open>shipped_config\<close> holds the values of config.py.
\<close>

record config =
  REQUIRE_BOTH_VERIFICATIONS :: bool
  ACCESS_TIME_WINDOW :: int
  SEND_ALERTS :: bool

definition shipped_config :: config where
  "shipped_config =
     \<lparr>REQUIRE_BOTH_VERIFICATIONS = True, ACCESS_TIME_WINDOW = 30, SEND_ALERTS = True\<rparr>"

section \<open>The verification matcher (access_control_system.py)\<close>

subsection \<open>Data\<close>

text \<open>
  A reading of \<open>datetime.now()\<close> is an integer number of microseconds. The source
  stores timestamps as \<open>isoformat()\<close> strings and reads them back with
  \<open>fromisoformat\<close>, which gives the same instant, so a timestamp is kept as the
  instant itself.
\<close>

type_synonym time = int

text \<open>
  The observation dicts, with the keys the matcher reads. A key that is absent or
  holds \<open>None\<close> is \<open>None\<close> here (\<open>dict.get\<close> gives \<open>None\<close> for both).
\<close>

record vehicle_data =
  v_is_valid :: bool
  plate_text :: "string option"

record id_card_data =
  c_is_valid :: bool
  moodle_id :: "string option"
  name :: "string option"

text \<open>
  A pending entry and a logged access record are dicts of one shape: a pending entry
  has the keys timestamp, vehicle and id_card; a match result adds match_status,
  access_decision and (when denied) reason; an expired entry adds access_decision and
  reason.
\<close>

record access_record =
  timestamp :: time
  vehicle :: "vehicle_data option"
  id_card :: "id_card_data option"
  match_status :: "string option"
  access_decision :: "string option"
  reason :: "string option"

text \<open>
  The key of a pending entry is the string \<open>vehicle_<plate>_<timestamp>\<close> or
  \<open>id_card_<id>_<timestamp>\<close>. The two prefixes differ, and an ISO timestamp has no
  underscore, so the string determines the kind, the rendered plate or id and the
  instant: the key is kept as that triple.
\<close>

datatype pending_key = VehicleKey string time | IdCardKey string time

record stats =
  total_attempts :: nat
  access_granted :: nat
  access_denied :: nat
  vehicle_only :: nat
  id_card_only :: nat
  both_verified :: nat

text \<open>
  The state of an \<open>AccessControlSystem\<close>: the pending dict in insertion order, the
  in-memory access log, the alerts written by \<open>send_alert\<close>, and the statistics.
\<close>

record system =
  pending_verifications :: "(pending_key \<times> access_record) list"
  access_log :: "access_record list"
  alerts :: "access_record list"
  stats :: stats

definition initial_system :: system where
  "initial_system =
     \<lparr>pending_verifications = [], access_log = [], alerts = [],
      stats = \<lparr>total_attempts = 0, access_granted = 0, access_denied = 0,
               vehicle_only = 0, id_card_only = 0, both_verified = 0\<rparr>\<rparr>"

datatype py_error = AttributeError | TypeError | KeyError | ValueError

subsection \<open>Python helpers\<close>

text \<open>Truthiness of an optional string: \<open>None\<close> and the empty string are false.\<close>

definition truthy :: "string option \<Rightarrow> bool" where
  "truthy s = (case s of None \<Rightarrow> False | Some x \<Rightarrow> x \<noteq> [])"

text \<open>An f-string renders \<open>None\<close> as the text None.\<close>

definition render :: "string option \<Rightarrow> string" where
  "render s = (case s of None \<Rightarrow> ''None'' | Some x \<Rightarrow> x)"

text \<open>
  \<open>(current_time - pending_time).seconds\<close>: the seconds field of a normalised
  timedelta, between 0 and 86399; whole days are a separate field that the source
  does not read.
\<close>

definition timedelta_seconds :: "int \<Rightarrow> int" where
  "timedelta_seconds d = (d div 1000000) mod 86400"

subsection \<open>Policy evaluation\<close>

definition vehicle_valid :: "vehicle_data option \<Rightarrow> bool" where
  "vehicle_valid vd = (case vd of None \<Rightarrow> False | Some v \<Rightarrow> v_is_valid v)"

definition id_card_valid :: "id_card_data option \<Rightarrow> bool" where
  "id_card_valid cd = (case cd of None \<Rightarrow> False | Some c \<Rightarrow> c_is_valid c)"

definition match_vehicle_and_id ::
  "config \<Rightarrow> time \<Rightarrow> vehicle_data option \<Rightarrow> id_card_data option \<Rightarrow> system
    \<Rightarrow> access_record \<times> system" where
  "match_vehicle_and_id cfg ts vd cd st =
    (let match_result =
           \<lparr>timestamp = ts, vehicle = vd, id_card = cd, match_status = Some ''pending'',
            access_decision = Some ''pending'', reason = None\<rparr>;
         vv = vehicle_valid vd;
         iv = id_card_valid cd;
         s = stats st;
         (match_result, s) =
           (if REQUIRE_BOTH_VERIFICATIONS cfg then
              (if vv \<and> iv then
                 (match_result\<lparr>match_status := Some ''matched'',
                               access_decision := Some ''granted''\<rparr>,
                  s\<lparr>both_verified := both_verified s + 1,
                    access_granted := access_granted s + 1\<rparr>)
               else
                 (match_result\<lparr>match_status := Some ''incomplete'',
                               access_decision := Some ''denied'',
                               reason := Some ''Both vehicle and ID card required''\<rparr>,
                  s\<lparr>access_denied := access_denied s + 1\<rparr>))
            else
              (if vv \<or> iv then
                 (match_result\<lparr>match_status := Some ''partial'',
                               access_decision := Some ''granted''\<rparr>,
                  (let s1 = s\<lparr>access_granted := access_granted s + 1\<rparr>
                   in if vv \<and> \<not> iv then s1\<lparr>vehicle_only := vehicle_only s1 + 1\<rparr>
                      else if iv \<and> \<not> vv then s1\<lparr>id_card_only := id_card_only s1 + 1\<rparr>
                      else s1))
               else
                 (match_result\<lparr>match_status := Some ''failed'',
                               access_decision := Some ''denied'',
                               reason := Some ''No valid identification''\<rparr>,
                  s\<lparr>access_denied := access_denied s + 1\<rparr>)))
     in (match_result, st\<lparr>stats := s\<lparr>total_attempts := total_attempts s + 1\<rparr>\<rparr>))"

subsection \<open>Logging\<close>

text \<open>
  \<open>send_alert\<close> prints the alert and appends it to the alerts file; the state keeps
  the record the alert was written for.
\<close>

definition send_alert :: "access_record \<Rightarrow> system \<Rightarrow> system" where
  "send_alert access_rec st = st\<lparr>alerts := alerts st @ [access_rec]\<rparr>"

text \<open>
  \<open>save_access_log\<close> appends the record to \<open>self.access_log\<close> and to the day's JSON
  file (the file holds the same records and is not kept separately; reading and
  writing it is taken to succeed), then alerts on a denial. Both callers set \<open>access_decision\<close> before the call, so the subscript
  \<open>access_record['access_decision']\<close> finds the key.
\<close>

definition save_access_log :: "config \<Rightarrow> access_record \<Rightarrow> system \<Rightarrow> system" where
  "save_access_log cfg access_rec st =
    (let st1 = st\<lparr>access_log := access_log st @ [access_rec]\<rparr>
     in if SEND_ALERTS cfg \<and> access_decision access_rec = Some ''denied''
        then send_alert access_rec st1 else st1)"

subsection \<open>Pending lookup\<close>

text \<open>
  \<open>pending.get('id_card', {}).get('moodle_id')\<close>: the key id_card is present in every
  pending entry, so the default \<open>{}\<close> is never used; when the value is \<open>None\<close> the
  second \<open>.get\<close> is an attribute access on \<open>None\<close> and raises AttributeError.
  The same holds for the vehicle side and for the name read by the print statements.
\<close>

definition pending_moodle_id :: "access_record \<Rightarrow> py_error + string option" where
  "pending_moodle_id pending =
     (case id_card pending of None \<Rightarrow> Inl AttributeError | Some c \<Rightarrow> Inr (moodle_id c))"

definition pending_plate_text :: "access_record \<Rightarrow> py_error + string option" where
  "pending_plate_text pending =
     (case vehicle pending of None \<Rightarrow> Inl AttributeError | Some v \<Rightarrow> Inr (plate_text v))"

definition pending_name :: "access_record \<Rightarrow> py_error + string option" where
  "pending_name pending =
     (case id_card pending of None \<Rightarrow> Inl AttributeError | Some c \<Rightarrow> Inr (name c))"

definition pop_pending :: "pending_key \<Rightarrow> system \<Rightarrow> system" where
  "pop_pending key st =
     st\<lparr>pending_verifications := AList.delete key (pending_verifications st)\<rparr>"

text \<open>
  The loop of \<open>check_pending_verification\<close> over the snapshot
  \<open>list(self.pending_verifications.items())\<close>. The value \<open>pending\<close> of the snapshot
  is the object stored in the dict, so \<open>pop(key)\<close> returns it. An expired entry is
  popped, marked denied and logged, and the loop goes on; the first entry that is not
  expired and matches is popped and returned; an exception leaves the loop with the
  state as it is at that point.
\<close>

fun pending_loop ::
  "config \<Rightarrow> time \<Rightarrow> string option \<Rightarrow> string option
    \<Rightarrow> (pending_key \<times> access_record) list \<Rightarrow> system
    \<Rightarrow> (py_error + access_record option) \<times> system" where
  "pending_loop cfg current_time mid plate [] st = (Inr None, st)"
| "pending_loop cfg current_time mid plate ((key, pending) # items) st =
    (if timedelta_seconds (current_time - timestamp pending) > ACCESS_TIME_WINDOW cfg then
       (let expired = pending\<lparr>access_decision := Some ''denied'',
                              reason := Some ''Verification timeout''\<rparr>
        in pending_loop cfg current_time mid plate items
             (save_access_log cfg expired (pop_pending key st)))
     else
       (case (if truthy mid then
                (case pending_moodle_id pending of
                   Inl e \<Rightarrow> Inl e
                 | Inr m \<Rightarrow> Inr (m = mid))
              else Inr False) of
          Inl e \<Rightarrow> (Inl e, st)
        | Inr True \<Rightarrow> (Inr (Some pending), pop_pending key st)
        | Inr False \<Rightarrow>
            (case (if truthy plate then
                     (case pending_plate_text pending of
                        Inl e \<Rightarrow> Inl e
                      | Inr p \<Rightarrow> Inr (p = plate))
                   else Inr False) of
               Inl e \<Rightarrow> (Inl e, st)
             | Inr True \<Rightarrow> (Inr (Some pending), pop_pending key st)
             | Inr False \<Rightarrow> pending_loop cfg current_time mid plate items st)))"

definition check_pending_verification ::
  "config \<Rightarrow> time \<Rightarrow> string option \<Rightarrow> string option \<Rightarrow> system
    \<Rightarrow> (py_error + access_record option) \<times> system" where
  "check_pending_verification cfg current_time mid plate st =
     pending_loop cfg current_time mid plate (pending_verifications st) st"

subsection \<open>Processing an observation\<close>

text \<open>
  A call reads the clock up to three times: \<open>t0\<close> in
  \<open>check_pending_verification\<close>, then either \<open>t1\<close> for the timestamp of the match
  result, or \<open>t1\<close> for the key and \<open>t2\<close> for the timestamp of the new pending entry.
  The argument is \<open>None\<close> for a missing or empty dict. Assigning to a key of the dict
  replaces the value in place when the key exists and appends otherwise
  (\<open>AList.update\<close>).
\<close>

definition process_vehicle_detection ::
  "config \<Rightarrow> time \<Rightarrow> time \<Rightarrow> time \<Rightarrow> vehicle_data option \<Rightarrow> system
    \<Rightarrow> (py_error + unit) \<times> system" where
  "process_vehicle_detection cfg t0 t1 t2 vd st =
    (if \<not> vehicle_valid vd then (Inr (), st)
     else
       (let plate_number = (case vd of None \<Rightarrow> None | Some v \<Rightarrow> plate_text v)
        in case check_pending_verification cfg t0 None plate_number st of
             (Inl e, st1) \<Rightarrow> (Inl e, st1)
           | (Inr (Some pending), st1) \<Rightarrow>
               (let pending1 = pending\<lparr>vehicle := vd\<rparr>;
                    (result, st2) = match_vehicle_and_id cfg t1 vd (id_card pending1) st1;
                    st3 = save_access_log cfg result st2
                in case pending_name pending1 of
                     Inl e \<Rightarrow> (Inl e, st3)
                   | Inr _ \<Rightarrow> (Inr (), st3))
           | (Inr None, st1) \<Rightarrow>
               (Inr (),
                st1\<lparr>pending_verifications :=
                      AList.update (VehicleKey (render plate_number) t1)
                        \<lparr>timestamp = t2, vehicle = vd, id_card = None,
                         match_status = None, access_decision = None, reason = None\<rparr>
                        (pending_verifications st1)\<rparr>)))"

definition process_id_card_detection ::
  "config \<Rightarrow> time \<Rightarrow> time \<Rightarrow> time \<Rightarrow> id_card_data option \<Rightarrow> system
    \<Rightarrow> (py_error + unit) \<times> system" where
  "process_id_card_detection cfg t0 t1 t2 cd st =
    (if \<not> id_card_valid cd then (Inr (), st)
     else
       (let mid = (case cd of None \<Rightarrow> None | Some c \<Rightarrow> moodle_id c)
        in case check_pending_verification cfg t0 mid None st of
             (Inl e, st1) \<Rightarrow> (Inl e, st1)
           | (Inr (Some pending), st1) \<Rightarrow>
               (let pending1 = pending\<lparr>id_card := cd\<rparr>;
                    (result, st2) = match_vehicle_and_id cfg t1 (vehicle pending1) cd st1;
                    st3 = save_access_log cfg result st2
                in case pending_plate_text pending1 of
                     Inl e \<Rightarrow> (Inl e, st3)
                   | Inr _ \<Rightarrow> (Inr (), st3))
           | (Inr None, st1) \<Rightarrow>
               (Inr (),
                st1\<lparr>pending_verifications :=
                      AList.update (IdCardKey (render mid) t1)
                        \<lparr>timestamp = t2, vehicle = None, id_card = cd,
                         match_status = None, access_decision = None, reason = None\<rparr>
                        (pending_verifications st1)\<rparr>)))"

section \<open>The field extractor (offline_id_card_recognizer.py)\<close>

subsection \<open>Characters and string methods\<close>

text \<open>
  Text is a list of 8-bit characters and the model covers ASCII text: the classes
  below are what \<open>str.isspace\<close>, \<open>str.isalpha\<close>, \<open>\s\<close>, \<open>\d\<close>, \<open>\w\<close> and
  \<open>[A-Z]\<close> accept among the first 128 code points, and a character above them
  belongs to no class.
\<close>

definition is_space :: "char \<Rightarrow> bool" where
  "is_space c =
     (c \<in> set [CHR 0x09, CHR 0x0A, CHR 0x0B, CHR 0x0C, CHR 0x0D,
                CHR 0x1C, CHR 0x1D, CHR 0x1E, CHR 0x1F, CHR '' ''])"

definition is_digit :: "char \<Rightarrow> bool" where
  "is_digit c = (c \<in> set ''0123456789'')"

definition is_upper :: "char \<Rightarrow> bool" where
  "is_upper c = (c \<in> set ''ABCDEFGHIJKLMNOPQRSTUVWXYZ'')"

definition is_lower :: "char \<Rightarrow> bool" where
  "is_lower c = (c \<in> set ''abcdefghijklmnopqrstuvwxyz'')"

definition is_alpha :: "char \<Rightarrow> bool" where
  "is_alpha c = (is_upper c \<or> is_lower c)"

definition is_word :: "char \<Rightarrow> bool" where
  "is_word c = (is_alpha c \<or> is_digit c \<or> c = CHR ''_'')"

definition upper_char :: "char \<Rightarrow> char" where
  "upper_char c =
     (case map_of (zip ''abcdefghijklmnopqrstuvwxyz'' ''ABCDEFGHIJKLMNOPQRSTUVWXYZ'') c of
        Some u \<Rightarrow> u | None \<Rightarrow> c)"

definition lower_char :: "char \<Rightarrow> char" where
  "lower_char c =
     (case map_of (zip ''ABCDEFGHIJKLMNOPQRSTUVWXYZ'' ''abcdefghijklmnopqrstuvwxyz'') c of
        Some l \<Rightarrow> l | None \<Rightarrow> c)"

definition upper :: "string \<Rightarrow> string" where
  "upper s = map upper_char s"

definition lower :: "string \<Rightarrow> string" where
  "lower s = map lower_char s"

definition strip :: "string \<Rightarrow> string" where
  "strip s = rev (dropWhile is_space (rev (dropWhile is_space s)))"

fun starts_with :: "string \<Rightarrow> string \<Rightarrow> bool" where
  "starts_with [] s = True"
| "starts_with (p # ps) [] = False"
| "starts_with (p # ps) (c # cs) = (p = c \<and> starts_with ps cs)"

text \<open>\<open>sub in s\<close>: the substring test.\<close>

fun contains :: "string \<Rightarrow> string \<Rightarrow> bool" where
  "contains sub [] = (sub = [])"
| "contains sub (c # cs) = (starts_with sub (c # cs) \<or> contains sub cs)"

text \<open>
  \<open>str.split()\<close> with no argument: the maximal runs of characters that are not
  white space. \<open>acc\<close> holds the current run, reversed.
\<close>

fun split_acc :: "string \<Rightarrow> string \<Rightarrow> string list" where
  "split_acc acc [] = (if acc = [] then [] else [rev acc])"
| "split_acc acc (c # cs) =
     (if is_space c then (if acc = [] then split_acc [] cs else rev acc # split_acc [] cs)
      else split_acc (c # acc) cs)"

definition split :: "string \<Rightarrow> string list" where
  "split s = split_acc [] s"

text \<open>\<open>" ".join(xs)\<close>.\<close>

fun join_space :: "string list \<Rightarrow> string" where
  "join_space [] = []"
| "join_space [x] = x"
| "join_space (x # y # ys) = x @ '' '' @ join_space (y # ys)"

subsection \<open>Regular expression search\<close>

text \<open>
  \<open>re.search\<close> tries the pattern at every position from the left and returns the
  first match. A pattern without \<open>\b\<close> is a function of the rest of the text at the
  position. In each pattern of this file a greedy repetition is followed by a
  character outside its class (or by nothing), so the greedy choice is the only one
  that can match and no backtracking is modelled.
\<close>

fun search :: "(string \<Rightarrow> 'a option) \<Rightarrow> string \<Rightarrow> 'a option" where
  "search m [] = m []"
| "search m (c # cs) = (case m (c # cs) of Some g \<Rightarrow> Some g | None \<Rightarrow> search m cs)"

text \<open>
  A pattern that starts with \<open>\b\<close> followed by a digit matches only where the
  character before is not a word character (or at the start); \<open>prev_word\<close> tells
  whether the character before the position is a word character.
\<close>

fun search_wb :: "(string \<Rightarrow> 'a option) \<Rightarrow> bool \<Rightarrow> string \<Rightarrow> 'a option" where
  "search_wb m prev_word [] = (if prev_word then None else m [])"
| "search_wb m prev_word (c # cs) =
     (case (if prev_word then None else m (c # cs)) of
        Some g \<Rightarrow> Some g
      | None \<Rightarrow> search_wb m (is_word c) cs)"

text \<open>
  \<open>re.finditer\<close>: the matches from left to right, each search starting where the
  last match ended. The matcher returns the group and the length of the whole match,
  which is at least 1 for the patterns below; \<open>skip\<close> counts the characters of the
  last match still to pass.
\<close>

fun finditer_from :: "(string \<Rightarrow> (string \<times> nat) option) \<Rightarrow> nat \<Rightarrow> string \<Rightarrow> string list" where
  "finditer_from m skip [] = []"
| "finditer_from m (Suc k) (c # cs) = finditer_from m k cs"
| "finditer_from m 0 (c # cs) =
     (case m (c # cs) of
        Some (g, n) \<Rightarrow> g # finditer_from m (n - 1) cs
      | None \<Rightarrow> finditer_from m 0 cs)"

definition finditer :: "(string \<Rightarrow> (string \<times> nat) option) \<Rightarrow> string \<Rightarrow> string list" where
  "finditer m s = finditer_from m 0 s"

subsection \<open>Identifier extraction\<close>

text \<open>\<open>(\d{8})\<close> at the start of the rest: the group, when eight digits stand there.\<close>

definition digits8 :: "string \<Rightarrow> string option" where
  "digits8 s =
     (if 8 \<le> length s \<and> list_all is_digit (take 8 s) then Some (take 8 s) else None)"

definition is_label_sep :: "char \<Rightarrow> bool" where
  "is_label_sep c = (c = CHR '':'' \<or> is_space c)"

text \<open>\<open>ID\s*NO[:\s]*(\d{8})\<close> with \<open>re.IGNORECASE\<close>, at a position.\<close>

definition match_id_no :: "string \<Rightarrow> string option" where
  "match_id_no s =
     (case s of
        c1 # c2 # r \<Rightarrow>
          if lower_char c1 = CHR ''i'' \<and> lower_char c2 = CHR ''d'' then
            (case dropWhile is_space r of
               c3 # c4 # r2 \<Rightarrow>
                 if lower_char c3 = CHR ''n'' \<and> lower_char c4 = CHR ''o''
                 then digits8 (dropWhile is_label_sep r2) else None
             | _ \<Rightarrow> None)
          else None
      | _ \<Rightarrow> None)"

text \<open>\<open>ID[:\s]*(\d{8})\<close> with \<open>re.IGNORECASE\<close>, at a position.\<close>

definition match_id :: "string \<Rightarrow> string option" where
  "match_id s =
     (case s of
        c1 # c2 # r \<Rightarrow>
          if lower_char c1 = CHR ''i'' \<and> lower_char c2 = CHR ''d''
          then digits8 (dropWhile is_label_sep r) else None
      | _ \<Rightarrow> None)"

text \<open>The closing \<open>\b\<close> after a digit: the end of the text or a non-word character.\<close>

definition word_end :: "string \<Rightarrow> bool" where
  "word_end r = (case r of [] \<Rightarrow> True | c # _ \<Rightarrow> \<not> is_word c)"

text \<open>\<open>(\d{8})\b\<close> and \<open>(2\d{7})\b\<close> at a position whose opening \<open>\b\<close> holds.\<close>

definition match_8digits :: "string \<Rightarrow> string option" where
  "match_8digits s =
     (case digits8 s of
        Some g \<Rightarrow> if word_end (drop 8 s) then Some g else None
      | None \<Rightarrow> None)"

definition match_2_7digits :: "string \<Rightarrow> string option" where
  "match_2_7digits s =
     (case match_8digits s of
        Some g \<Rightarrow> if hd g = CHR ''2'' then Some g else None
      | None \<Rightarrow> None)"

text \<open>
  The Moodle ID block of \<open>parse_id_card_data\<close>: the three patterns in order, the first
  that matches anywhere gives the id; when none matches, any 8-digit word. A group is
  eight characters long, so \<open>not card_data['moodle_id']\<close> holds only for \<open>None\<close>.
\<close>

fun first_match :: "(string \<Rightarrow> string option) list \<Rightarrow> string \<Rightarrow> string option" where
  "first_match [] s = None"
| "first_match (p # ps) s = (case p s of Some g \<Rightarrow> Some g | None \<Rightarrow> first_match ps s)"

definition moodle_patterns :: "(string \<Rightarrow> string option) list" where
  "moodle_patterns =
     [search match_id_no, search match_id, search_wb match_2_7digits False]"

definition extract_moodle_id :: "string \<Rightarrow> string option" where
  "extract_moodle_id all_text =
     (case first_match moodle_patterns all_text of
        Some g \<Rightarrow> Some g
      | None \<Rightarrow> search_wb match_8digits False all_text)"

subsection \<open>Name extraction\<close>

definition invalid_name_patterns :: "string list" where
  "invalid_name_patterns =
     [''apsit'', ''engineering'', ''comp'', ''engineer'', ''technology'',
      ''institute'', ''department'', ''mech'', ''civil'', ''elect'',
      ''principal'', ''charitable'', ''trust'', ''address'', ''addross'',
      ''shah'', ''parshvanalh'']"

definition vowel_count :: "string \<Rightarrow> nat" where
  "vowel_count s = length (filter (\<lambda>c. c \<in> set ''aeiou'') s)"

text \<open>
  \<open>is_valid_name\<close>, test by test. The last test compares the quotient
  \<open>vowel_count / len(text_clean)\<close> with 0.2 in floating point; the length is between
  6 and 30 there, where the rounded quotient is below the rounded 0.2 exactly when
  \<open>5 * vowel_count < len(text_clean)\<close>.
\<close>

definition is_valid_name :: "string \<Rightarrow> bool" where
  "is_valid_name text =
    (let text_clean = upper (strip text);
         text_lower = lower text_clean
     in if \<not> list_all (\<lambda>c. is_alpha c \<or> is_space c) text_clean then False
        else if length text_clean < 6 \<or> length text_clean > 30 then False
        else if list_ex (\<lambda>p. contains p text_lower) invalid_name_patterns then False
        else if CHR '' '' \<notin> set text_clean \<and> length text_clean < 8 then False
        else if (case split text_clean of [w] \<Rightarrow> length w < 8 | _ \<Rightarrow> False) then False
        else if length text_clean > 0 \<and> 5 * vowel_count text_lower < length text_clean
          then False
        else True)"

text \<open>\<open>([A-Z][A-Z\s]{10,50})\<close> at a position: the group and the length of the match.\<close>

definition match_upper_run :: "string \<Rightarrow> (string \<times> nat) option" where
  "match_upper_run s =
     (case s of
        [] \<Rightarrow> None
      | c # cs \<Rightarrow>
          if is_upper c then
            (let body = take 50 (takeWhile (\<lambda>x. is_upper x \<or> is_space x) cs)
             in if 10 \<le> length body then Some (c # body, Suc (length body)) else None)
          else None)"

text \<open>\<open>Name[:\s]+([A-Z][A-Za-z\s]+)\<close> at a position.\<close>

definition match_name_label :: "string \<Rightarrow> (string \<times> nat) option" where
  "match_name_label s =
     (if starts_with ''Name'' s then
        (let seps = takeWhile is_label_sep (drop 4 s)
         in if seps = [] then None
            else
              (case drop (4 + length seps) s of
                 [] \<Rightarrow> None
               | c # cs \<Rightarrow>
                   if is_upper c then
                     (let body = takeWhile (\<lambda>x. is_alpha x \<or> is_space x) cs
                      in if body = [] then None
                         else Some (c # body, 4 + length seps + Suc (length body)))
                   else None))
      else None)"

text \<open>
  The candidate loop: for each pattern in order, for each match from the left, the
  stripped group is kept when \<open>is_valid_name\<close> accepts it.
\<close>

definition name_candidates :: "string \<Rightarrow> string list" where
  "name_candidates all_text =
     filter is_valid_name
       (map strip (finditer match_upper_run all_text @ finditer match_name_label all_text))"

text \<open>\<open>max(xs, key=len)\<close> on a list with first element \<open>best\<close>: the first longest.\<close>

fun max_by_len :: "string \<Rightarrow> string list \<Rightarrow> string" where
  "max_by_len best [] = best"
| "max_by_len best (x # xs) = max_by_len (if length best < length x then x else best) xs"

definition extract_name :: "string \<Rightarrow> string option" where
  "extract_name all_text =
     (case name_candidates all_text of
        [] \<Rightarrow> None
      | c # cs \<Rightarrow> Some (max_by_len c cs))"

subsection \<open>Department extraction\<close>

text \<open>\<open>self.valid_departments\<close>, in the order of the dict.\<close>

definition valid_departments :: "(string \<times> string) list" where
  "valid_departments =
     [(''computer'', ''COMPUTER ENGINEERING''),
      (''mechanical'', ''MECHANICAL ENGINEERING''),
      (''civil'', ''CIVIL ENGINEERING''),
      (''electrical'', ''ELECTRICAL ENGINEERING''),
      (''electronics'', ''ELECTRONICS ENGINEERING''),
      (''information'', ''INFORMATION TECHNOLOGY''),
      (''it'', ''INFORMATION TECHNOLOGY'')]"

definition normalize_department :: "string \<Rightarrow> string option" where
  "normalize_department text =
    (let text_lower = lower text
     in case find (\<lambda>(keyword, standard_name). contains keyword text_lower) valid_departments of
          Some (keyword, standard_name) \<Rightarrow> Some standard_name
        | None \<Rightarrow>
            if contains ''engineer'' text_lower \<or> contains ''engin'' text_lower then
              (if contains ''compu'' text_lower \<or> contains ''comp'' text_lower
                 then Some ''COMPUTER ENGINEERING''
               else if contains ''mech'' text_lower then Some ''MECHANICAL ENGINEERING''
               else if contains ''civil'' text_lower then Some ''CIVIL ENGINEERING''
               else if contains ''elect'' text_lower then Some ''ELECTRICAL ENGINEERING''
               else if contains ''electron'' text_lower then Some ''ELECTRONICS ENGINEERING''
               else if contains ''info'' text_lower \<or> contains ''it'' text_lower
                 then Some ''INFORMATION TECHNOLOGY''
               else None)
            else None)"

definition dept_keywords :: "string list" where
  "dept_keywords =
     [''COMPUTER ENGINEERING'', ''MECHANICAL ENGINEERING'', ''CIVIL ENGINEERING'',
      ''ELECTRICAL ENGINEERING'', ''ELECTRONICS ENGINEERING'', ''INFORMATION TECHNOLOGY'',
      ''IT'', ''CSE'', ''ECE'', ''EEE'',
      ''COMPUTER'', ''MECHANICAL'', ''CIVIL'', ''ELECTRICAL'', ''ELECTRONICS'']"

text \<open>
  The keyword loop: the first keyword found in the upper-cased text whose
  normalisation is truthy (not \<open>None\<close> and not empty) sets the department and ends
  the loop.
\<close>

fun department_loop :: "string list \<Rightarrow> string \<Rightarrow> string option" where
  "department_loop [] text_upper = None"
| "department_loop (keyword # keywords) text_upper =
     (if contains keyword text_upper then
        (case normalize_department keyword of
           Some normalized \<Rightarrow>
             if normalized \<noteq> [] then Some normalized
             else department_loop keywords text_upper
         | None \<Rightarrow> department_loop keywords text_upper)
      else department_loop keywords text_upper)"

definition extract_department :: "string \<Rightarrow> string option" where
  "extract_department all_text = department_loop dept_keywords (upper all_text)"

subsection \<open>Photo region\<close>

text \<open>
  An entry of \<open>ID_CARD_REGIONS\<close> is a 4-tuple of floats in config.py;
  \<open>extract_photo_region\<close> subscripts it with the strings x, y, width and height, as
  if it were a dict. Subscripting a tuple with a string raises TypeError.
\<close>

datatype region = RegionTuple real real real real | RegionDict "(string \<times> real) list"

definition ID_CARD_REGIONS :: "(string \<times> region) list" where
  "ID_CARD_REGIONS =
     [(''photo'', RegionTuple 0.25 0.15 0.75 0.50),
      (''name'', RegionTuple 0.1 0.52 0.9 0.62),
      (''department'', RegionTuple 0.1 0.63 0.9 0.73),
      (''moodle_id'', RegionTuple 0.1 0.80 0.7 0.92)]"

definition region_item :: "(string \<times> region) list \<Rightarrow> string \<Rightarrow> string \<Rightarrow> py_error + real" where
  "region_item regions k field =
     (case map_of regions k of
        None \<Rightarrow> Inl KeyError
      | Some (RegionTuple a b c d) \<Rightarrow> Inl TypeError
      | Some (RegionDict items) \<Rightarrow>
          (case map_of items field of None \<Rightarrow> Inl KeyError | Some v \<Rightarrow> Inr v))"

definition bind_err :: "'e + 'a \<Rightarrow> ('a \<Rightarrow> 'e + 'b) \<Rightarrow> 'e + 'b" where
  "bind_err r f = (case r of Inl e \<Rightarrow> Inl e | Inr v \<Rightarrow> f v)"

text \<open>\<open>int(x)\<close> of a float: truncation towards zero.\<close>

definition py_int :: "real \<Rightarrow> int" where
  "py_int x = (if 0 \<le> x then \<lfloor>x\<rfloor> else \<lceil>x\<rceil>)"

text \<open>
  The image is an array of the numerical library, which the source uses through
  \<open>shape[:2]\<close>, the slice \<open>[y1:y2, x1:x2]\<close> and \<open>size\<close>; these are parameters:
  \<open>shape2\<close> gives the height and width or the error raised by the unpacking,
  \<open>crop\<close> the slice or its error. The body of the \<open>try\<close> is \<open>photo_region\<close>;
  \<open>except Exception\<close> turns every error into \<open>None\<close>. Products of floats are taken
  as products of reals.
\<close>

record 'img image_ops =
  shape2 :: "'img \<Rightarrow> py_error + (nat \<times> nat)"
  crop :: "'img \<Rightarrow> int \<Rightarrow> int \<Rightarrow> int \<Rightarrow> int \<Rightarrow> py_error + 'img"
  img_size :: "'img \<Rightarrow> nat"

definition photo_region ::
  "(string \<times> region) list \<Rightarrow> 'img image_ops \<Rightarrow> 'img \<Rightarrow> py_error + 'img" where
  "photo_region regions ops card_image =
     bind_err (shape2 ops card_image) (\<lambda>(h, w).
     bind_err (region_item regions ''photo'' ''x'') (\<lambda>x.
     bind_err (region_item regions ''photo'' ''y'') (\<lambda>y.
     bind_err (region_item regions ''photo'' ''width'') (\<lambda>width.
     bind_err (region_item regions ''photo'' ''height'') (\<lambda>height.
       crop ops card_image
         (py_int (real h * y)) (py_int (real h * (y + height)))
         (py_int (real w * x)) (py_int (real w * (x + width))))))))"

definition extract_photo_region ::
  "(string \<times> region) list \<Rightarrow> 'img image_ops \<Rightarrow> 'img \<Rightarrow> 'img option" where
  "extract_photo_region regions ops card_image =
     (case photo_region regions ops card_image of
        Inl e \<Rightarrow> None
      | Inr photo \<Rightarrow> Some photo)"

subsection \<open>Parsing a card\<close>

text \<open>
  \<open>parse_id_card_data\<close> on the OCR triples (box, text, confidence). The record has
  the fields the properties below read; institute, academic_year, confidence and
  timestamp are computed from the same text by blocks that raise nothing and write no
  other field.
\<close>

record card_data =
  card_moodle_id :: "string option"
  card_name :: "string option"
  department :: "string option"
  raw_text :: string
  photo_extracted :: bool

definition parse_id_card_data ::
  "(string \<times> region) list \<Rightarrow> 'img image_ops \<Rightarrow> ('b \<times> string \<times> real) list \<Rightarrow> 'img
    \<Rightarrow> card_data \<times> 'img option" where
  "parse_id_card_data regions ops ocr_results card_image =
    (let all_text = join_space (map (\<lambda>(box, text, conf). text) ocr_results);
         photo = extract_photo_region regions ops card_image
     in (\<lparr>card_moodle_id = extract_moodle_id all_text,
          card_name = extract_name all_text,
          department = extract_department all_text,
          raw_text = all_text,
          photo_extracted = (case photo of None \<Rightarrow> False | Some ph \<Rightarrow> img_size ops ph > 0)\<rparr>,
         photo))"

subsection \<open>Pending keys and sequences of observations\<close>

text \<open>
  The plate of a pending entry and its subject identifier, as lists: empty when the
  side is absent or the string is missing or empty, so that a list without repetition
  means at most one pending entry for each non-empty string.
\<close>

definition entry_plates :: "access_record \<Rightarrow> string list" where
  "entry_plates e =
     (case vehicle e of
        None \<Rightarrow> []
      | Some v \<Rightarrow> (case plate_text v of None \<Rightarrow> [] | Some p \<Rightarrow> if p = [] then [] else [p]))"

definition entry_ids :: "access_record \<Rightarrow> string list" where
  "entry_ids e =
     (case id_card e of
        None \<Rightarrow> []
      | Some c \<Rightarrow> (case moodle_id c of None \<Rightarrow> [] | Some m \<Rightarrow> if m = [] then [] else [m]))"

definition keys_of ::
  "(access_record \<Rightarrow> string list) \<Rightarrow> (pending_key \<times> access_record) list \<Rightarrow> string list" where
  "keys_of f pend = concat (map (\<lambda>x. f (snd x)) pend)"

definition pending_plates :: "system \<Rightarrow> string list" where
  "pending_plates st = keys_of entry_plates (pending_verifications st)"

definition pending_ids :: "system \<Rightarrow> string list" where
  "pending_ids st = keys_of entry_ids (pending_verifications st)"

text \<open>
  An observation with the three clock readings of its call. \<open>observe\<close> is the
  state the call leaves, also when it raises; \<open>run_matcher\<close> processes a sequence
  in order of arrival.
\<close>

datatype observation =
  VehicleObservation "vehicle_data option" | IdentityObservation "id_card_data option"

fun observe :: "config \<Rightarrow> (time \<times> time \<times> time) \<times> observation \<Rightarrow> system \<Rightarrow> system" where
  "observe cfg ((t0, t1, t2), VehicleObservation vd) st =
     snd (process_vehicle_detection cfg t0 t1 t2 vd st)"
| "observe cfg ((t0, t1, t2), IdentityObservation cd) st =
     snd (process_id_card_detection cfg t0 t1 t2 cd st)"

fun run_matcher ::
  "config \<Rightarrow> ((time \<times> time \<times> time) \<times> observation) list \<Rightarrow> system \<Rightarrow> system" where
  "run_matcher cfg [] st = st"
| "run_matcher cfg (ev # evs) st = run_matcher cfg evs (observe cfg ev st)"

definition unique_keys :: "system \<Rightarrow> bool" where
  "unique_keys st = (distinct (pending_plates st) \<and> distinct (pending_ids st))"

text \<open>
  An observation is well formed when, if it is flagged valid, its key is a non-empty
  string. That is what the recognizers deliver: \<open>validate_indian_plate\<close> rejects an
  empty plate, and a card is valid only with a truthy id; an observation that is not
  flagged valid is dropped by the first test of the processing functions.
\<close>

definition well_formed :: "(time \<times> time \<times> time) \<times> observation \<Rightarrow> bool" where
  "well_formed ev =
     (case snd ev of
        VehicleObservation vd \<Rightarrow>
          (case vd of None \<Rightarrow> True
           | Some v \<Rightarrow> if v_is_valid v then truthy (plate_text v) else True)
      | IdentityObservation cd \<Rightarrow>
          (case cd of None \<Rightarrow> True
           | Some c \<Rightarrow> if c_is_valid c then truthy (moodle_id c) else True))"

text \<open>
  The plate strings and the subject identifiers of the pending entries, the empty
  string included. \<open>keys_truthy\<close>: no pending entry has an empty key.
\<close>

definition entry_plate_strings :: "access_record \<Rightarrow> string list" where
  "entry_plate_strings e =
     (case vehicle e of
        None \<Rightarrow> []
      | Some v \<Rightarrow> (case plate_text v of None \<Rightarrow> [] | Some p \<Rightarrow> [p]))"

definition entry_id_strings :: "access_record \<Rightarrow> string list" where
  "entry_id_strings e =
     (case id_card e of
        None \<Rightarrow> []
      | Some c \<Rightarrow> (case moodle_id c of None \<Rightarrow> [] | Some m \<Rightarrow> [m]))"

definition pending_plate_strings :: "system \<Rightarrow> string list" where
  "pending_plate_strings st = keys_of entry_plate_strings (pending_verifications st)"

definition pending_id_strings :: "system \<Rightarrow> string list" where
  "pending_id_strings st = keys_of entry_id_strings (pending_verifications st)"

definition keys_truthy :: "system \<Rightarrow> bool" where
  "keys_truthy st =
     list_all (\<lambda>x. entry_plate_strings (snd x) = entry_plates (snd x)
                \<and> entry_id_strings (snd x) = entry_ids (snd x))
       (pending_verifications st)"


text \<open>
  A record is one-sided when it lacks the vehicle or the identity. \<open>sides_apart\<close>:
  every pending entry and every logged record is one-sided, and in both-required mode
  every logged record is a denial.
\<close>

definition one_sided :: "access_record \<Rightarrow> bool" where
  "one_sided r = (vehicle r = None \<or> id_card r = None)"

definition sides_apart :: "config \<Rightarrow> system \<Rightarrow> bool" where
  "sides_apart cfg st =
     (list_all (\<lambda>x. one_sided (snd x)) (pending_verifications st)
      \<and> list_all (\<lambda>r. one_sided r
            \<and> (REQUIRE_BOTH_VERIFICATIONS cfg \<longrightarrow> access_decision r = Some ''denied''))
          (access_log st))"


section \<open>Declarative counterparts\<close>

subsection \<open>Positions of a match\<close>

text \<open>
  \<open>matches_at m t i g\<close>: the pattern \<open>m\<close> matches the text \<open>t\<close> at index \<open>i\<close> with
  group \<open>g\<close>. \<open>digit_word_at t i g\<close>: at index \<open>i\<close> stand the eight digits \<open>g\<close>, with
  no word character (letter, digit or underscore) directly before or after them.
  \<open>first_at P g\<close>: \<open>g\<close> is found at the least index where \<open>P\<close> finds anything;
  \<open>nowhere P\<close>: \<open>P\<close> finds nothing. \<open>wb_at\<close> is \<open>matches_at\<close> with the opening
  word boundary, for a text that follows a word character or not.
\<close>

definition matches_at :: "(string \<Rightarrow> 'a option) \<Rightarrow> string \<Rightarrow> nat \<Rightarrow> 'a \<Rightarrow> bool" where
  "matches_at m t i g = (i \<le> length t \<and> m (drop i t) = Some g)"

definition word_start :: "string \<Rightarrow> nat \<Rightarrow> bool" where
  "word_start t i = (i = 0 \<or> \<not> is_word (t ! (i - 1)))"

definition digit_word_at :: "string \<Rightarrow> nat \<Rightarrow> string \<Rightarrow> bool" where
  "digit_word_at t i g =
     (i + 8 \<le> length t \<and> g = take 8 (drop i t) \<and> list_all is_digit g
      \<and> word_start t i \<and> (i + 8 = length t \<or> \<not> is_word (t ! (i + 8))))"

definition digit_word2_at :: "string \<Rightarrow> nat \<Rightarrow> string \<Rightarrow> bool" where
  "digit_word2_at t i g = (digit_word_at t i g \<and> t ! i = CHR ''2'')"

definition first_at :: "(nat \<Rightarrow> 'a \<Rightarrow> bool) \<Rightarrow> 'a \<Rightarrow> bool" where
  "first_at P g = (\<exists>i. P i g \<and> (\<forall>j<i. \<forall>h. \<not> P j h))"

definition nowhere :: "(nat \<Rightarrow> 'a \<Rightarrow> bool) \<Rightarrow> bool" where
  "nowhere P = (\<forall>i g. \<not> P i g)"

definition wb_at :: "(string \<Rightarrow> 'a option) \<Rightarrow> bool \<Rightarrow> string \<Rightarrow> nat \<Rightarrow> 'a \<Rightarrow> bool" where
  "wb_at m prev_word t i g =
     (i \<le> length t \<and> (if i = 0 then \<not> prev_word else \<not> is_word (t ! (i - 1)))
      \<and> m (drop i t) = Some g)"

text \<open>
  \<open>matches_from m t start gs\<close>: \<open>gs\<close> are the groups of the matches of \<open>m\<close> in
  the text \<open>t\<close> from index \<open>start\<close> on, from left to right and without overlap:
  each match is at the least index, not before the end of the match before it, where
  the pattern matches.
\<close>

inductive matches_from ::
  "(string \<Rightarrow> (string \<times> nat) option) \<Rightarrow> string \<Rightarrow> nat \<Rightarrow> string list \<Rightarrow> bool"
  for m :: "string \<Rightarrow> (string \<times> nat) option" and t :: string where
  no_more: "(\<And>i. start \<le> i \<Longrightarrow> i \<le> length t \<Longrightarrow> m (drop i t) = None)
     \<Longrightarrow> matches_from m t start []"
| next_match: "start \<le> i \<Longrightarrow> i \<le> length t \<Longrightarrow> m (drop i t) = Some (g, n)
     \<Longrightarrow> (\<And>j. start \<le> j \<Longrightarrow> j < i \<Longrightarrow> m (drop j t) = None)
     \<Longrightarrow> matches_from m t (i + n) gs
     \<Longrightarrow> matches_from m t start (g # gs)"

text \<open>The characters of the two name patterns after their first letter.\<close>

definition is_run_char :: "char \<Rightarrow> bool" where
  "is_run_char c = (is_upper c \<or> is_space c)"

definition is_name_char :: "char \<Rightarrow> bool" where
  "is_name_char c = (is_alpha c \<or> is_space c)"

subsection \<open>The specification's wording of the extraction\<close>

text \<open>
  Identifier extraction as the specification words it: the first run of eight digits
  starting with 2 anywhere in the text, else the first run of eight digits anywhere.
\<close>

definition digits8_from_2 :: "string \<Rightarrow> string option" where
  "digits8_from_2 s =
     (case digits8 s of Some g \<Rightarrow> if hd g = CHR ''2'' then Some g else None | None \<Rightarrow> None)"

definition first_identifier_substring :: "string \<Rightarrow> string option" where
  "first_identifier_substring t =
     (case search digits8_from_2 t of Some g \<Rightarrow> Some g | None \<Rightarrow> search digits8 t)"

text \<open>
  Name selection as the specification words it: among the OCR fragments whose text is
  a valid name, the one of highest confidence, the longer text on equal confidence.
\<close>

definition more_confident :: "string \<times> real \<Rightarrow> string \<times> real \<Rightarrow> bool" where
  "more_confident a b = (snd b < snd a \<or> (snd b = snd a \<and> length (fst b) < length (fst a)))"

fun most_confident :: "string \<times> real \<Rightarrow> (string \<times> real) list \<Rightarrow> string \<times> real" where
  "most_confident best [] = best"
| "most_confident best (x # xs) = most_confident (if more_confident x best then x else best) xs"

definition select_name_by_confidence :: "('b \<times> string \<times> real) list \<Rightarrow> string option" where
  "select_name_by_confidence ocr_results =
     (case filter (\<lambda>(text, conf). is_valid_name text) (map snd ocr_results) of
        [] \<Rightarrow> None
      | c # cs \<Rightarrow> Some (fst (most_confident c cs)))"

text \<open>
  Three OCR fragments (the boxes left out): two valid names of different length and
  confidence, separated by a number.
\<close>

definition sample_ocr :: "(unit \<times> string \<times> real) list" where
  "sample_ocr =
     [((), ''ANITA DESHPANDE'', 0.8), ((), ''12345'', 0.9), ((), ''RAHUL KUMAR J'', 0.99)]"

definition sample_text :: string where
  "sample_text = join_space (map (\<lambda>(box, text, conf). text) sample_ocr)"

text \<open>Array operations for the unit image, which has no pixels.\<close>

definition sample_ops :: "unit image_ops" where
  "sample_ops =
     \<lparr>shape2 = (\<lambda>img. Inr (0, 0)), crop = (\<lambda>img y1 y2 x1 x2. Inr ()), img_size = (\<lambda>img. 0)\<rparr>"


section \<open>Sample observations\<close>

text \<open>
  The observations of the example scenario: the plate MH12AB1234 and the card of
  JOHN SMITH with id 20230001, both valid; instants in microseconds.
\<close>

definition plate_mh12 :: vehicle_data where
  "plate_mh12 = \<lparr>v_is_valid = True, plate_text = Some ''MH12AB1234''\<rparr>"

definition card_john :: id_card_data where
  "card_john =
     \<lparr>c_is_valid = True, moodle_id = Some ''20230001'', name = Some ''JOHN SMITH''\<rparr>"

definition seconds :: "int \<Rightarrow> time" where
  "seconds n = n * 1000000"

definition pending_vehicle_mh12 :: access_record where
  "pending_vehicle_mh12 =
     \<lparr>timestamp = 0, vehicle = Some plate_mh12, id_card = None,
      match_status = None, access_decision = None, reason = None\<rparr>"

definition pending_card_john :: access_record where
  "pending_card_john =
     \<lparr>timestamp = 0, vehicle = None, id_card = Some card_john,
      match_status = None, access_decision = None, reason = None\<rparr>"

text \<open>The state after the vehicle, and after the card, is seen at instant 0.\<close>

definition after_vehicle :: system where
  "after_vehicle =
     snd (process_vehicle_detection shipped_config 0 0 0 (Some plate_mh12) initial_system)"

definition after_card :: system where
  "after_card =
     snd (process_id_card_detection shipped_config 0 0 0 (Some card_john) initial_system)"

text \<open>A second plate, and three vehicle observations five seconds apart.\<close>

definition plate_dl01 :: vehicle_data where
  "plate_dl01 = \<lparr>v_is_valid = True, plate_text = Some ''DL01CD5678''\<rparr>"

definition sample_run :: "((time \<times> time \<times> time) \<times> observation) list" where
  "sample_run =
     [((0, 0, 0), VehicleObservation (Some plate_mh12)),
      ((seconds 5, seconds 5, seconds 5), VehicleObservation (Some plate_dl01)),
      ((seconds 10, seconds 10, seconds 10), VehicleObservation (Some plate_mh12))]"


section \<open>Properties of the matcher\<close>

lemma after_vehicle_eq:
  "after_vehicle =
     initial_system\<lparr>pending_verifications := [(VehicleKey ''MH12AB1234'' 0, pending_vehicle_mh12)]\<rparr>"
  by (simp add: after_vehicle_def process_vehicle_detection_def check_pending_verification_def
      vehicle_valid_def plate_mh12_def initial_system_def render_def pending_vehicle_mh12_def)

lemma after_card_eq:
  "after_card =
     initial_system\<lparr>pending_verifications := [(IdCardKey ''20230001'' 0, pending_card_john)]\<rparr>"
  by (simp add: after_card_def process_id_card_detection_def check_pending_verification_def
      id_card_valid_def card_john_def initial_system_def render_def pending_card_john_def)

text \<open>
  C1. The matcher is claimed never to raise on a well-formed observation. With the
  card of JOHN SMITH pending since instant 0, the valid vehicle observation MH12AB1234
  at 10 seconds raises AttributeError in the lookup: the pending entry holds
  \<open>None\<close> for its vehicle side, and the lookup calls \<open>.get\<close> on it. The state is
  left as it was.
\<close>

theorem vehicle_after_card_raises:
  "process_vehicle_detection shipped_config (seconds 10) (seconds 10) (seconds 10)
     (Some plate_mh12) after_card
   = (Inl AttributeError, after_card)"
  by (simp add: after_card_eq process_vehicle_detection_def check_pending_verification_def
      vehicle_valid_def plate_mh12_def initial_system_def pending_card_john_def
      shipped_config_def seconds_def timedelta_seconds_def truthy_def pending_plate_text_def)

text \<open>
  C2. The example scenario: the vehicle MH12AB1234 observed at 0 and the identity
  20230001 / JOHN SMITH observed at 10 seconds, window 30 seconds. The claim expects
  the pending vehicle entry to be matched and one granted decision to be logged. The
  lookup raises AttributeError on the pending vehicle entry instead (its id_card side
  is \<open>None\<close>): the entry stays pending and nothing is logged.
\<close>

theorem card_after_vehicle_raises:
  "process_id_card_detection shipped_config (seconds 10) (seconds 10) (seconds 10)
     (Some card_john) after_vehicle
   = (Inl AttributeError, after_vehicle)
   \<and> pending_verifications after_vehicle = [(VehicleKey ''MH12AB1234'' 0, pending_vehicle_mh12)]
   \<and> access_log after_vehicle = []"
  by (simp add: after_vehicle_eq process_id_card_detection_def check_pending_verification_def
      id_card_valid_def card_john_def initial_system_def pending_vehicle_mh12_def
      shipped_config_def seconds_def timedelta_seconds_def truthy_def pending_moodle_id_def)

text \<open>
  C6. A matched entry is claimed to produce one decision that references both the
  vehicle and the identity observation. The lookup compares the plate of a vehicle
  observation with the plate of the pending entries, so what it matches is a pending
  vehicle entry: with MH12AB1234 pending since 0, the same plate at 10 seconds is
  matched, and the one decision logged has no identity side and is denied; the print
  statement after it then raises AttributeError.
\<close>

theorem vehicle_matches_pending_vehicle:
  "process_vehicle_detection shipped_config (seconds 10) (seconds 10) (seconds 10)
     (Some plate_mh12) after_vehicle
   = (Inl AttributeError,
      \<lparr>pending_verifications = [],
       access_log =
         [\<lparr>timestamp = seconds 10, vehicle = Some plate_mh12, id_card = None,
           match_status = Some ''incomplete'', access_decision = Some ''denied'',
           reason = Some ''Both vehicle and ID card required''\<rparr>],
       alerts =
         [\<lparr>timestamp = seconds 10, vehicle = Some plate_mh12, id_card = None,
           match_status = Some ''incomplete'', access_decision = Some ''denied'',
           reason = Some ''Both vehicle and ID card required''\<rparr>],
       stats = \<lparr>total_attempts = 1, access_granted = 0, access_denied = 1,
                vehicle_only = 0, id_card_only = 0, both_verified = 0\<rparr>\<rparr>)"
  by (simp add: after_vehicle_eq process_vehicle_detection_def check_pending_verification_def
      vehicle_valid_def plate_mh12_def initial_system_def pending_vehicle_mh12_def
      shipped_config_def seconds_def timedelta_seconds_def truthy_def pending_plate_text_def
      pop_pending_def match_vehicle_and_id_def id_card_valid_def save_access_log_def
      send_alert_def pending_name_def AList.delete_eq Let_def)

section \<open>Uniqueness of pending keys\<close>

lemma keys_of_Nil [simp]: "keys_of f [] = []"
  by (simp add: keys_of_def)

lemma keys_of_Cons [simp]: "keys_of f (x # xs) = f (snd x) @ keys_of f xs"
  by (simp add: keys_of_def)

lemma keys_of_filter_subset: "set (keys_of f (filter P xs)) \<subseteq> set (keys_of f xs)"
  by (induction xs) auto

lemma distinct_keys_of_filter:
  "distinct (keys_of f xs) \<Longrightarrow> distinct (keys_of f (filter P xs))"
proof (induction xs)
  case Nil
  show ?case by simp
next
  case (Cons x xs)
  from keys_of_filter_subset [of f P xs] Cons show ?case
    by auto
qed

lemma keys_of_update_subset:
  "set (keys_of f (AList.update key v xs)) \<subseteq> set (f v) \<union> set (keys_of f xs)"
  by (induction xs) auto

lemma distinct_keys_of_update:
  "distinct (keys_of f xs) \<Longrightarrow> distinct (f v) \<Longrightarrow> set (f v) \<inter> set (keys_of f xs) = {}
     \<Longrightarrow> distinct (keys_of f (AList.update key v xs))"
proof (induction xs)
  case Nil
  then show ?case by simp
next
  case (Cons x xs)
  show ?case
  proof (cases "fst x = key")
    case True
    with Cons.prems show ?thesis by auto
  next
    case False
    from Cons.prems have "distinct (keys_of f (AList.update key v xs))"
      by (intro Cons.IH) auto
    moreover have "set (f (snd x)) \<inter> set (keys_of f (AList.update key v xs)) = {}"
      using keys_of_update_subset [of f key v xs] Cons.prems by auto
    ultimately show ?thesis
      using False Cons.prems by auto
  qed
qed

lemma pending_save_access_log [simp]:
  "pending_verifications (save_access_log cfg r st) = pending_verifications st"
  by (simp add: save_access_log_def send_alert_def Let_def)

lemma pending_pop_pending:
  "pending_verifications (pop_pending key st) =
     filter (\<lambda>(k, e). key \<noteq> k) (pending_verifications st)"
  by (simp add: pop_pending_def AList.delete_eq)

lemma pending_loop_filter:
  "\<exists>P. pending_verifications (snd (pending_loop cfg now mid plate items st)) =
         filter P (pending_verifications st)"
proof (induction items arbitrary: st)
  case Nil
  have "pending_verifications st = filter (\<lambda>x. True) (pending_verifications st)" by simp
  then show ?case by (metis pending_loop.simps(1) snd_conv)
next
  case (Cons item items)
  obtain key pending where item: "item = (key, pending)" by (cases item)
  have pop: "\<exists>P. pending_verifications (pop_pending key st) = filter P (pending_verifications st)"
    by (auto simp: pending_pop_pending)
  have same: "\<exists>P. pending_verifications st = filter P (pending_verifications st)"
    by (rule exI [of _ "\<lambda>x. True"]) simp
  show ?case
  proof (cases "timedelta_seconds (now - timestamp pending) > ACCESS_TIME_WINDOW cfg")
    case True
    obtain P where "pending_verifications (snd (pending_loop cfg now mid plate items
        (save_access_log cfg (pending\<lparr>access_decision := Some ''denied'',
           reason := Some ''Verification timeout''\<rparr>) (pop_pending key st)))) =
        filter P (pending_verifications (pop_pending key st))"
      using Cons.IH by (metis pending_save_access_log)
    then show ?thesis
      using True item by (auto simp: pending_pop_pending Let_def)
  next
    case False
    then show ?thesis
      using item pop same Cons.IH [of st]
      by (auto split: sum.splits bool.splits simp del: split_paired_Ex)
  qed
qed


lemma pending_loop_distinct:
  assumes "distinct (keys_of f (pending_verifications st))"
  shows "distinct (keys_of f (pending_verifications (snd (pending_loop cfg now mid plate items st))))"
proof -
  obtain P where "pending_verifications (snd (pending_loop cfg now mid plate items st)) =
      filter P (pending_verifications st)"
    using pending_loop_filter by blast
  with assms show ?thesis
    by (simp add: distinct_keys_of_filter)
qed

lemma pending_loop_subset:
  "set (pending_verifications (snd (pending_loop cfg now mid plate items st)))
     \<subseteq> set (pending_verifications st)"
proof -
  obtain P where "pending_verifications (snd (pending_loop cfg now mid plate items st)) =
      filter P (pending_verifications st)"
    using pending_loop_filter by blast
  then show ?thesis by auto
qed

text \<open>After a scan that ends without a match, no scanned entry that is still
  pending has the plate (or the id) that was looked for.\<close>

lemma pending_loop_no_match:
  assumes "pending_loop cfg now mid plate items st = (Inr None, st')"
    and "(k, e) \<in> set items" and "(k, e) \<in> set (pending_verifications st')"
  shows "(truthy plate \<longrightarrow> the plate \<notin> set (entry_plates e))
       \<and> (truthy mid \<longrightarrow> the mid \<notin> set (entry_ids e))"
  using assms
proof (induction items arbitrary: st)
  case Nil
  then show ?case by simp
next
  case (Cons item items)
  obtain key pending where item: "item = (key, pending)" by (cases item)
  show ?case
  proof (cases "timedelta_seconds (now - timestamp pending) > ACCESS_TIME_WINDOW cfg")
    case True
    let ?st1 = "save_access_log cfg (pending\<lparr>access_decision := Some ''denied'',
           reason := Some ''Verification timeout''\<rparr>) (pop_pending key st)"
    from Cons.prems(1) True item
    have run: "pending_loop cfg now mid plate items ?st1 = (Inr None, st')"
      by (simp add: Let_def)
    have "set (pending_verifications st') \<subseteq> set (pending_verifications ?st1)"
      using pending_loop_subset [of cfg now mid plate items ?st1] run by simp
    with Cons.prems(3) have "k \<noteq> key"
      by (auto simp: pending_pop_pending)
    with Cons.prems(2) item have "(k, e) \<in> set items" by auto
    from Cons.IH [OF run this Cons.prems(3)] show ?thesis .
  next
    case False
    from Cons.prems(1) False item
    have run: "pending_loop cfg now mid plate items st = (Inr None, st')"
      by (auto split: sum.splits bool.splits if_splits)
    show ?thesis
    proof (cases "(k, e) = (key, pending)")
      case True
      from Cons.prems(1) False item True show ?thesis
        by (auto simp: truthy_def entry_plates_def entry_ids_def pending_plate_text_def
            pending_moodle_id_def split: sum.splits bool.splits if_splits option.splits)
    next
      case False
      with Cons.prems(2) item have "(k, e) \<in> set items" by auto
      from Cons.IH [OF run this Cons.prems(3)] show ?thesis .
    qed
  qed
qed


lemma set_keys_of: "set (keys_of f xs) = (\<Union>x\<in>set xs. set (f (snd x)))"
  by (induction xs) auto

lemma check_no_match_plate:
  assumes "check_pending_verification cfg now mid plate st = (Inr None, st')" and "truthy plate"
  shows "the plate \<notin> set (keys_of entry_plates (pending_verifications st'))"
proof
  assume "the plate \<in> set (keys_of entry_plates (pending_verifications st'))"
  then obtain k e where ke: "(k, e) \<in> set (pending_verifications st')"
    and p: "the plate \<in> set (entry_plates e)"
    by (auto simp: set_keys_of)
  from assms(1) have run:
    "pending_loop cfg now mid plate (pending_verifications st) st = (Inr None, st')"
    by (simp add: check_pending_verification_def)
  from pending_loop_subset [of cfg now mid plate "pending_verifications st" st] run ke
  have "(k, e) \<in> set (pending_verifications st)" by auto
  from pending_loop_no_match [OF run this ke] assms(2) p show False by simp
qed

lemma check_no_match_id:
  assumes "check_pending_verification cfg now mid plate st = (Inr None, st')" and "truthy mid"
  shows "the mid \<notin> set (keys_of entry_ids (pending_verifications st'))"
proof
  assume "the mid \<in> set (keys_of entry_ids (pending_verifications st'))"
  then obtain k e where ke: "(k, e) \<in> set (pending_verifications st')"
    and p: "the mid \<in> set (entry_ids e)"
    by (auto simp: set_keys_of)
  from assms(1) have run:
    "pending_loop cfg now mid plate (pending_verifications st) st = (Inr None, st')"
    by (simp add: check_pending_verification_def)
  from pending_loop_subset [of cfg now mid plate "pending_verifications st" st] run ke
  have "(k, e) \<in> set (pending_verifications st)" by auto
  from pending_loop_no_match [OF run this ke] assms(2) p show False by simp
qed

lemma check_distinct:
  assumes "distinct (keys_of f (pending_verifications st))"
    and "check_pending_verification cfg now mid plate st = (r, st')"
  shows "distinct (keys_of f (pending_verifications st'))"
  using pending_loop_distinct [OF assms(1), of cfg now mid plate "pending_verifications st"] assms(2)
  by (simp add: check_pending_verification_def)

lemma pending_match_vehicle_and_id [simp]:
  "pending_verifications (snd (match_vehicle_and_id cfg ts vd cd st)) = pending_verifications st"
  by (simp add: match_vehicle_and_id_def Let_def)

lemma process_vehicle_detection_unique:
  assumes "unique_keys st"
  shows "unique_keys (snd (process_vehicle_detection cfg t0 t1 t2 vd st))"
proof (cases "vehicle_valid vd")
  case False
  with assms show ?thesis by (simp add: process_vehicle_detection_def)
next
  case True
  then obtain v where vd: "vd = Some v" by (cases vd) (auto simp: vehicle_valid_def)
  obtain r st1 where chk: "check_pending_verification cfg t0 None (plate_text v) st = (r, st1)"
    by (cases "check_pending_verification cfg t0 None (plate_text v) st")
  from assms have d1: "distinct (keys_of entry_plates (pending_verifications st1))"
    and d2: "distinct (keys_of entry_ids (pending_verifications st1))"
    using check_distinct [OF _ chk] by (auto simp: unique_keys_def pending_plates_def pending_ids_def)
  show ?thesis
  proof (cases r)
    case (Inl e)
    with True vd chk d1 d2 show ?thesis
      by (simp add: process_vehicle_detection_def unique_keys_def pending_plates_def pending_ids_def)
  next
    case (Inr found)
    show ?thesis
    proof (cases found)
      case (Some pending)
      with Inr True vd chk d1 d2 show ?thesis
        by (simp add: process_vehicle_detection_def unique_keys_def pending_plates_def
            pending_ids_def Let_def case_prod_beta split: sum.splits)
    next
      case None
      let ?new = "\<lparr>timestamp = t2, vehicle = Some v, id_card = None,
                   match_status = None, access_decision = None, reason = None\<rparr>"
      have "set (entry_plates ?new) \<inter> set (keys_of entry_plates (pending_verifications st1)) = {}"
      proof (cases "truthy (plate_text v)")
        case True
        from check_no_match_plate [OF chk [unfolded Inr None] True] True show ?thesis
          by (auto simp: entry_plates_def truthy_def split: option.splits)
      next
        case False
        then show ?thesis
          by (auto simp: entry_plates_def truthy_def split: option.splits)
      qed
      moreover have "distinct (entry_plates ?new)"
        by (simp add: entry_plates_def split: option.splits)
      moreover have "entry_ids ?new = []"
        by (simp add: entry_ids_def)
      ultimately show ?thesis
        using Inr None True vd chk d1 d2
        by (simp add: process_vehicle_detection_def unique_keys_def pending_plates_def
            pending_ids_def distinct_keys_of_update)
    qed
  qed
qed

lemma process_id_card_detection_unique:
  assumes "unique_keys st"
  shows "unique_keys (snd (process_id_card_detection cfg t0 t1 t2 cd st))"
proof (cases "id_card_valid cd")
  case False
  with assms show ?thesis by (simp add: process_id_card_detection_def)
next
  case True
  then obtain c where cd: "cd = Some c" by (cases cd) (auto simp: id_card_valid_def)
  obtain r st1 where chk: "check_pending_verification cfg t0 (moodle_id c) None st = (r, st1)"
    by (cases "check_pending_verification cfg t0 (moodle_id c) None st")
  from assms have d1: "distinct (keys_of entry_plates (pending_verifications st1))"
    and d2: "distinct (keys_of entry_ids (pending_verifications st1))"
    using check_distinct [OF _ chk] by (auto simp: unique_keys_def pending_plates_def pending_ids_def)
  show ?thesis
  proof (cases r)
    case (Inl e)
    with True cd chk d1 d2 show ?thesis
      by (simp add: process_id_card_detection_def unique_keys_def pending_plates_def pending_ids_def)
  next
    case (Inr found)
    show ?thesis
    proof (cases found)
      case (Some pending)
      with Inr True cd chk d1 d2 show ?thesis
        by (simp add: process_id_card_detection_def unique_keys_def pending_plates_def
            pending_ids_def Let_def case_prod_beta split: sum.splits)
    next
      case None
      let ?new = "\<lparr>timestamp = t2, vehicle = None, id_card = Some c,
                   match_status = None, access_decision = None, reason = None\<rparr>"
      have "set (entry_ids ?new) \<inter> set (keys_of entry_ids (pending_verifications st1)) = {}"
      proof (cases "truthy (moodle_id c)")
        case True
        from check_no_match_id [OF chk [unfolded Inr None] True] True show ?thesis
          by (auto simp: entry_ids_def truthy_def split: option.splits)
      next
        case False
        then show ?thesis
          by (auto simp: entry_ids_def truthy_def split: option.splits)
      qed
      moreover have "distinct (entry_ids ?new)"
        by (simp add: entry_ids_def split: option.splits)
      moreover have "entry_plates ?new = []"
        by (simp add: entry_plates_def)
      ultimately show ?thesis
        using Inr None True cd chk d1 d2
        by (simp add: process_id_card_detection_def unique_keys_def pending_plates_def
            pending_ids_def distinct_keys_of_update)
    qed
  qed
qed

lemma observe_unique: "unique_keys st \<Longrightarrow> unique_keys (observe cfg ev st)"
  by (cases "(cfg, ev, st)" rule: observe.cases)
    (simp_all add: process_vehicle_detection_unique process_id_card_detection_unique)

lemma run_matcher_unique: "unique_keys st \<Longrightarrow> unique_keys (run_matcher cfg evs st)"
  by (induction evs arbitrary: st) (simp_all add: observe_unique)

text \<open>
  The pending list stays a dict: its keys stay distinct, so removing a key removes
  one entry.
\<close>

lemma check_keys_distinct:
  assumes "distinct (map fst (pending_verifications st))"
  shows "distinct (map fst (pending_verifications
           (snd (check_pending_verification cfg now mid plate st))))"
proof -
  obtain P where "pending_verifications (snd (pending_loop cfg now mid plate
      (pending_verifications st) st)) = filter P (pending_verifications st)"
    using pending_loop_filter by blast
  with assms show ?thesis
    by (simp add: check_pending_verification_def distinct_map_filter)
qed

lemma process_vehicle_detection_keys_distinct:
  assumes "distinct (map fst (pending_verifications st))"
  shows "distinct (map fst (pending_verifications
           (snd (process_vehicle_detection cfg t0 t1 t2 vd st))))"
proof (cases "vehicle_valid vd")
  case False
  with assms show ?thesis by (simp add: process_vehicle_detection_def)
next
  case True
  let ?plate = "case vd of None \<Rightarrow> None | Some v \<Rightarrow> plate_text v"
  obtain r st1 where chk: "check_pending_verification cfg t0 None ?plate st = (r, st1)"
    by (cases "check_pending_verification cfg t0 None ?plate st")
  from check_keys_distinct [OF assms, of cfg t0 None ?plate] chk
  have "distinct (map fst (pending_verifications st1))" by simp
  with True chk show ?thesis
    by (auto simp: process_vehicle_detection_def Let_def case_prod_beta AList.distinct_update
        split: sum.splits option.splits)
qed

lemma process_id_card_detection_keys_distinct:
  assumes "distinct (map fst (pending_verifications st))"
  shows "distinct (map fst (pending_verifications
           (snd (process_id_card_detection cfg t0 t1 t2 cd st))))"
proof (cases "id_card_valid cd")
  case False
  with assms show ?thesis by (simp add: process_id_card_detection_def)
next
  case True
  let ?mid = "case cd of None \<Rightarrow> None | Some c \<Rightarrow> moodle_id c"
  obtain r st1 where chk: "check_pending_verification cfg t0 ?mid None st = (r, st1)"
    by (cases "check_pending_verification cfg t0 ?mid None st")
  from check_keys_distinct [OF assms, of cfg t0 ?mid None] chk
  have "distinct (map fst (pending_verifications st1))" by simp
  with True chk show ?thesis
    by (auto simp: process_id_card_detection_def Let_def case_prod_beta AList.distinct_update
        split: sum.splits option.splits)
qed

lemma run_matcher_keys_distinct:
  "distinct (map fst (pending_verifications st))
     \<Longrightarrow> distinct (map fst (pending_verifications (run_matcher cfg evs st)))"
proof (induction evs arbitrary: st)
  case Nil
  then show ?case by simp
next
  case (Cons ev evs)
  have "distinct (map fst (pending_verifications (observe cfg ev st)))"
    using Cons.prems
    by (cases "(cfg, ev, st)" rule: observe.cases)
      (simp_all add: process_vehicle_detection_keys_distinct
        process_id_card_detection_keys_distinct)
  from Cons.IH [OF this] show ?case by simp
qed

text \<open>
  For every sequence of observations whatever, the non-empty keys of the pending
  entries are without repetition.
\<close>

lemma pending_keys_unique:
  "distinct (pending_plates (run_matcher cfg evs initial_system))
   \<and> distinct (pending_ids (run_matcher cfg evs initial_system))"
proof -
  have "unique_keys initial_system"
    by (simp add: unique_keys_def pending_plates_def pending_ids_def initial_system_def)
  then have "unique_keys (run_matcher cfg evs initial_system)"
    by (rule run_matcher_unique)
  then show ?thesis by (simp add: unique_keys_def)
qed

lemma set_update_subset:
  "set (AList.update k e xs) \<subseteq> insert (k, e) (set xs)"
  by (induction xs) auto

lemma check_keys_truthy:
  assumes "keys_truthy st"
  shows "keys_truthy (snd (check_pending_verification cfg now mid plate st))"
proof -
  obtain P where "pending_verifications (snd (pending_loop cfg now mid plate
      (pending_verifications st) st)) = filter P (pending_verifications st)"
    using pending_loop_filter by blast
  with assms show ?thesis
    by (simp add: check_pending_verification_def keys_truthy_def list_all_iff)
qed

lemma keys_truthy_update:
  assumes "keys_truthy st"
    and "entry_plate_strings e = entry_plates e" and "entry_id_strings e = entry_ids e"
  shows "keys_truthy (st\<lparr>pending_verifications :=
            AList.update k e (pending_verifications st)\<rparr>)"
  using assms set_update_subset [of k e "pending_verifications st"]
  by (fastforce simp: keys_truthy_def list_all_iff)

lemma process_vehicle_detection_keys_truthy:
  assumes "keys_truthy st" and "well_formed (ts, VehicleObservation vd)"
  shows "keys_truthy (snd (process_vehicle_detection cfg t0 t1 t2 vd st))"
proof (cases "vehicle_valid vd")
  case False
  with assms show ?thesis by (simp add: process_vehicle_detection_def)
next
  case True
  then obtain v where vd: "vd = Some v" and valid: "v_is_valid v"
    by (cases vd) (auto simp: vehicle_valid_def)
  with assms(2) have key: "truthy (plate_text v)"
    by (simp add: well_formed_def)
  obtain r st1 where chk: "check_pending_verification cfg t0 None (plate_text v) st = (r, st1)"
    by (cases "check_pending_verification cfg t0 None (plate_text v) st")
  from check_keys_truthy [OF assms(1), of cfg t0 None "plate_text v"] chk
  have st1: "keys_truthy st1" by simp
  let ?new = "\<lparr>timestamp = t2, vehicle = Some v, id_card = None,
                match_status = None, access_decision = None, reason = None\<rparr>"
  from key have "entry_plate_strings ?new = entry_plates ?new"
    and "entry_id_strings ?new = entry_ids ?new"
    by (auto simp: entry_plate_strings_def entry_plates_def entry_id_strings_def
        entry_ids_def truthy_def split: option.splits)
  from keys_truthy_update [OF st1 this] st1 True vd chk show ?thesis
    by (auto simp: process_vehicle_detection_def Let_def case_prod_beta keys_truthy_def
        split: sum.splits option.splits)
qed

lemma process_id_card_detection_keys_truthy:
  assumes "keys_truthy st" and "well_formed (ts, IdentityObservation cd)"
  shows "keys_truthy (snd (process_id_card_detection cfg t0 t1 t2 cd st))"
proof (cases "id_card_valid cd")
  case False
  with assms show ?thesis by (simp add: process_id_card_detection_def)
next
  case True
  then obtain c where cd: "cd = Some c" and valid: "c_is_valid c"
    by (cases cd) (auto simp: id_card_valid_def)
  with assms(2) have key: "truthy (moodle_id c)"
    by (simp add: well_formed_def)
  obtain r st1 where chk: "check_pending_verification cfg t0 (moodle_id c) None st = (r, st1)"
    by (cases "check_pending_verification cfg t0 (moodle_id c) None st")
  from check_keys_truthy [OF assms(1), of cfg t0 "moodle_id c" None] chk
  have st1: "keys_truthy st1" by simp
  let ?new = "\<lparr>timestamp = t2, vehicle = None, id_card = Some c,
                match_status = None, access_decision = None, reason = None\<rparr>"
  from key have "entry_plate_strings ?new = entry_plates ?new"
    and "entry_id_strings ?new = entry_ids ?new"
    by (auto simp: entry_plate_strings_def entry_plates_def entry_id_strings_def
        entry_ids_def truthy_def split: option.splits)
  from keys_truthy_update [OF st1 this] st1 True cd chk show ?thesis
    by (auto simp: process_id_card_detection_def Let_def case_prod_beta keys_truthy_def
        split: sum.splits option.splits)
qed

lemma observe_keys_truthy:
  assumes "keys_truthy st" and "well_formed ev"
  shows "keys_truthy (observe cfg ev st)"
proof -
  obtain t0 t1 t2 ob where ev: "ev = ((t0, t1, t2), ob)" by (cases ev) auto
  show ?thesis
  proof (cases ob)
    case (VehicleObservation vd)
    with assms ev show ?thesis
      by (simp add: process_vehicle_detection_keys_truthy)
  next
    case (IdentityObservation cd)
    with assms ev show ?thesis
      by (simp add: process_id_card_detection_keys_truthy)
  qed
qed

lemma run_matcher_keys_truthy:
  "keys_truthy st \<Longrightarrow> list_all well_formed evs \<Longrightarrow> keys_truthy (run_matcher cfg evs st)"
  by (induction evs arbitrary: st) (simp_all add: observe_keys_truthy)

lemma keys_truthy_strings:
  assumes "keys_truthy st"
  shows "pending_plate_strings st = pending_plates st"
    and "pending_id_strings st = pending_ids st"
proof -
  have "keys_of entry_plate_strings xs = keys_of entry_plates xs
      \<and> keys_of entry_id_strings xs = keys_of entry_ids xs"
    if "list_all (\<lambda>x. entry_plate_strings (snd x) = entry_plates (snd x)
                \<and> entry_id_strings (snd x) = entry_ids (snd x)) xs"
    for xs :: "(pending_key \<times> access_record) list"
    using that by (induction xs) simp_all
  with assms show "pending_plate_strings st = pending_plates st"
    and "pending_id_strings st = pending_ids st"
    by (simp_all add: keys_truthy_def pending_plate_strings_def pending_id_strings_def
        pending_plates_def pending_ids_def)
qed

text \<open>
  C3. For every sequence of well-formed observations, after each of them (after every
  initial part of the sequence) the pending set holds at most one entry for each plate
  string and at most one for each subject identifier.
\<close>

theorem one_pending_entry_per_key:
  assumes "list_all well_formed evs"
  shows "distinct (pending_plate_strings (run_matcher cfg (take n evs) initial_system))
       \<and> distinct (pending_id_strings (run_matcher cfg (take n evs) initial_system))"
proof -
  from assms have wf: "list_all well_formed (take n evs)"
    by (auto simp: list_all_iff dest: in_set_takeD)
  have "keys_truthy initial_system"
    by (simp add: keys_truthy_def initial_system_def)
  from run_matcher_keys_truthy [OF this wf]
  have k: "keys_truthy (run_matcher cfg (take n evs) initial_system)" .
  have "unique_keys initial_system"
    by (simp add: unique_keys_def pending_plates_def pending_ids_def initial_system_def)
  then have "unique_keys (run_matcher cfg (take n evs) initial_system)"
    by (rule run_matcher_unique)
  with keys_truthy_strings [OF k] show ?thesis
    by (simp add: unique_keys_def)
qed

text \<open>
  Two plates observed in turn are both pending, once each.
\<close>

lemma sample_run_state:
  "pending_plate_strings (run_matcher shipped_config (take 2 sample_run) initial_system)
     = [''MH12AB1234'', ''DL01CD5678'']"
  by (simp add: sample_run_def process_vehicle_detection_def
      check_pending_verification_def vehicle_valid_def plate_mh12_def plate_dl01_def
      initial_system_def render_def seconds_def shipped_config_def
      timedelta_seconds_def truthy_def Let_def pending_plate_strings_def
      entry_plate_strings_def pending_plate_text_def)

theorem one_pending_entry_per_key_witness:
  "list_all well_formed sample_run
   \<and> distinct (pending_plate_strings (run_matcher shipped_config (take 2 sample_run) initial_system))
   \<and> distinct (pending_id_strings (run_matcher shipped_config (take 2 sample_run) initial_system))
   \<and> pending_plate_strings (run_matcher shipped_config (take 2 sample_run) initial_system)
       = [''MH12AB1234'', ''DL01CD5678'']"
proof -
  have wf: "list_all well_formed sample_run"
    by (simp add: sample_run_def well_formed_def plate_mh12_def plate_dl01_def truthy_def)
  from one_pending_entry_per_key [OF wf, of shipped_config 2] wf sample_run_state
  show ?thesis by blast
qed

section \<open>Expiry\<close>





lemma access_log_save_access_log [simp]:
  "access_log (save_access_log cfg r st) = access_log st @ [r]"
  by (simp add: save_access_log_def send_alert_def Let_def)

lemma access_log_pop_pending [simp]: "access_log (pop_pending key st) = access_log st"
  by (simp add: pop_pending_def)


lemma pending_loop_live_cases:
  assumes "\<not> ACCESS_TIME_WINDOW cfg < timedelta_seconds (now - timestamp pending)"
  shows "(\<exists>e. pending_loop cfg now mid plate ((key, pending) # items) st = (Inl e, st))
       \<or> pending_loop cfg now mid plate ((key, pending) # items) st
           = (Inr (Some pending), pop_pending key st)
       \<or> pending_loop cfg now mid plate ((key, pending) # items) st
           = pending_loop cfg now mid plate items st"
  using assms
  by (cases "truthy mid"; cases "pending_moodle_id pending"; cases "truthy plate";
      cases "pending_plate_text pending") (auto split: bool.split)








text \<open>
  The scan reads only the seconds field of the age: an entry one day and ten seconds
  old is taken for ten seconds old and stays pending.
\<close>

lemma sweep_ignores_whole_days:
  "check_pending_verification shipped_config (seconds 86410) None None after_vehicle
   = (Inr None, after_vehicle)"
  by (simp add: after_vehicle_eq check_pending_verification_def initial_system_def
      pending_vehicle_mh12_def shipped_config_def seconds_def timedelta_seconds_def
      truthy_def)

section \<open>The two sides are never combined\<close>

lemma pending_loop_live_match:
  assumes "\<not> ACCESS_TIME_WINDOW cfg < timedelta_seconds (now - timestamp pending)"
    and "pending_loop cfg now mid plate ((key, pending) # items) st = (Inr (Some e), st')"
  shows "(e = pending \<and> (truthy mid \<and> id_card e \<noteq> None \<or> truthy plate \<and> vehicle e \<noteq> None))
       \<or> pending_loop cfg now mid plate items st = (Inr (Some e), st')"
  using assms
  by (cases "truthy mid"; cases "pending_moodle_id pending"; cases "truthy plate";
      cases "pending_plate_text pending")
    (auto simp: pending_moodle_id_def pending_plate_text_def split: bool.splits option.splits)

lemma pending_loop_match_side:
  assumes "pending_loop cfg now mid plate items st = (Inr (Some e), st')"
  shows "e \<in> snd ` set items
       \<and> (truthy mid \<and> id_card e \<noteq> None \<or> truthy plate \<and> vehicle e \<noteq> None)"
  using assms
proof (induction items arbitrary: st)
  case Nil
  then show ?case by simp
next
  case (Cons item items)
  obtain key pending where item: "item = (key, pending)" by (cases item)
  show ?case
  proof (cases "timedelta_seconds (now - timestamp pending) > ACCESS_TIME_WINDOW cfg")
    case True
    with Cons.prems item Cons.IH show ?thesis
      by (auto simp: Let_def)
  next
    case False
    from pending_loop_live_match [OF False Cons.prems [unfolded item]] Cons.IH [of st] item
    show ?thesis by (auto simp del: pending_loop.simps)
  qed
qed

lemma sides_apart_pop: "sides_apart cfg st \<Longrightarrow> sides_apart cfg (pop_pending key st)"
  by (simp add: sides_apart_def pending_pop_pending list_all_iff)

lemma sides_apart_save:
  "sides_apart cfg st \<Longrightarrow> one_sided r
     \<Longrightarrow> (REQUIRE_BOTH_VERIFICATIONS cfg \<longrightarrow> access_decision r = Some ''denied'')
     \<Longrightarrow> sides_apart cfg (save_access_log cfg r st)"
  by (simp add: sides_apart_def)

lemma pending_loop_sides_apart:
  assumes "sides_apart cfg st" and "list_all (\<lambda>x. one_sided (snd x)) items"
  shows "sides_apart cfg (snd (pending_loop cfg now mid plate items st))"
  using assms
proof (induction items arbitrary: st)
  case Nil
  then show ?case by simp
next
  case (Cons item items)
  obtain key pending where item: "item = (key, pending)" by (cases item)
  from Cons.prems(2) item have one: "one_sided pending"
    and rest: "list_all (\<lambda>x. one_sided (snd x)) items" by simp_all
  show ?case
  proof (cases "timedelta_seconds (now - timestamp pending) > ACCESS_TIME_WINDOW cfg")
    case True
    let ?ex = "pending\<lparr>access_decision := Some ''denied'', reason := Some ''Verification timeout''\<rparr>"
    from one have "one_sided ?ex" by (simp add: one_sided_def)
    then have "sides_apart cfg (save_access_log cfg ?ex (pop_pending key st))"
      using Cons.prems(1) by (intro sides_apart_save sides_apart_pop) simp_all
    from Cons.IH [OF this rest] True item show ?thesis
      by (simp add: Let_def)
  next
    case False
    from pending_loop_live_cases [OF False, of mid plate key items st] item
      Cons.IH [OF Cons.prems(1) rest] Cons.prems(1) sides_apart_pop [OF Cons.prems(1), of key]
    show ?thesis by (auto simp del: pending_loop.simps)
  qed
qed

lemma access_log_match_vehicle_and_id [simp]:
  "access_log (snd (match_vehicle_and_id cfg ts vd cd st)) = access_log st"
  by (simp add: match_vehicle_and_id_def Let_def)

lemma sides_apart_match:
  assumes "sides_apart cfg st" and "vd = None \<or> cd = None"
  shows "sides_apart cfg
           (save_access_log cfg (fst (match_vehicle_and_id cfg ts vd cd st))
              (snd (match_vehicle_and_id cfg ts vd cd st)))"
proof -
  have "\<not> (vehicle_valid vd \<and> id_card_valid cd)"
    using assms(2) by (auto simp: vehicle_valid_def id_card_valid_def)
  then have "REQUIRE_BOTH_VERIFICATIONS cfg \<longrightarrow>
      access_decision (fst (match_vehicle_and_id cfg ts vd cd st)) = Some ''denied''"
    by (auto simp: match_vehicle_and_id_def Let_def)
  moreover have "one_sided (fst (match_vehicle_and_id cfg ts vd cd st))"
    using assms(2) by (auto simp: match_vehicle_and_id_def Let_def one_sided_def)
  moreover have "sides_apart cfg (snd (match_vehicle_and_id cfg ts vd cd st))"
    using assms(1) by (simp add: sides_apart_def)
  ultimately show ?thesis by (intro sides_apart_save) simp_all
qed

lemma sides_apart_update:
  "sides_apart cfg st \<Longrightarrow> one_sided e
     \<Longrightarrow> sides_apart cfg (st\<lparr>pending_verifications := AList.update k e (pending_verifications st)\<rparr>)"
proof -
  assume a: "sides_apart cfg st" "one_sided e"
  have "set (AList.update k e xs) \<subseteq> insert (k, e) (set xs)" for xs :: "(pending_key \<times> access_record) list"
    by (induction xs) auto
  with a show ?thesis
    by (fastforce simp: sides_apart_def list_all_iff)
qed

lemma process_vehicle_detection_sides_apart:
  assumes "sides_apart cfg st"
  shows "sides_apart cfg (snd (process_vehicle_detection cfg t0 t1 t2 vd st))"
proof (cases "vehicle_valid vd")
  case False
  with assms show ?thesis by (simp add: process_vehicle_detection_def)
next
  case True
  then obtain v where vd: "vd = Some v" by (cases vd) (auto simp: vehicle_valid_def)
  let ?items = "pending_verifications st"
  obtain r st1 where run: "pending_loop cfg t0 None (plate_text v) ?items st = (r, st1)"
    by (cases "pending_loop cfg t0 None (plate_text v) ?items st")
  from assms have items: "list_all (\<lambda>x. one_sided (snd x)) ?items"
    by (simp add: sides_apart_def)
  from pending_loop_sides_apart [OF assms items, of t0 None "plate_text v"] run
  have st1: "sides_apart cfg st1" by simp
  show ?thesis
  proof (cases r)
    case (Inl e)
    with True vd run st1 show ?thesis
      by (simp add: process_vehicle_detection_def check_pending_verification_def)
  next
    case (Inr found)
    show ?thesis
    proof (cases found)
      case None
      have "one_sided \<lparr>timestamp = t2, vehicle = Some v, id_card = None,
                   match_status = None, access_decision = None, reason = None\<rparr>"
        by (simp add: one_sided_def)
      from sides_apart_update [OF st1 this] Inr None True vd run show ?thesis
        by (simp add: process_vehicle_detection_def check_pending_verification_def)
    next
      case (Some e)
      from pending_loop_match_side [OF run [unfolded Inr Some]]
      have "e \<in> snd ` set ?items" and "vehicle e \<noteq> None"
        by (auto simp: truthy_def)
      with items have "id_card e = None"
        by (auto simp: list_all_iff one_sided_def)
      then have "sides_apart cfg
           (save_access_log cfg (fst (match_vehicle_and_id cfg t1 (Some v) (id_card e) st1))
              (snd (match_vehicle_and_id cfg t1 (Some v) (id_card e) st1)))"
        using st1 by (intro sides_apart_match) simp_all
      with Inr Some True vd run show ?thesis
        by (simp add: process_vehicle_detection_def check_pending_verification_def
            case_prod_beta Let_def split: sum.splits)
    qed
  qed
qed

lemma process_id_card_detection_sides_apart:
  assumes "sides_apart cfg st"
  shows "sides_apart cfg (snd (process_id_card_detection cfg t0 t1 t2 cd st))"
proof (cases "id_card_valid cd")
  case False
  with assms show ?thesis by (simp add: process_id_card_detection_def)
next
  case True
  then obtain c where cd: "cd = Some c" by (cases cd) (auto simp: id_card_valid_def)
  let ?items = "pending_verifications st"
  obtain r st1 where run: "pending_loop cfg t0 (moodle_id c) None ?items st = (r, st1)"
    by (cases "pending_loop cfg t0 (moodle_id c) None ?items st")
  from assms have items: "list_all (\<lambda>x. one_sided (snd x)) ?items"
    by (simp add: sides_apart_def)
  from pending_loop_sides_apart [OF assms items, of t0 "moodle_id c" None] run
  have st1: "sides_apart cfg st1" by simp
  show ?thesis
  proof (cases r)
    case (Inl e)
    with True cd run st1 show ?thesis
      by (simp add: process_id_card_detection_def check_pending_verification_def)
  next
    case (Inr found)
    show ?thesis
    proof (cases found)
      case None
      have "one_sided \<lparr>timestamp = t2, vehicle = None, id_card = Some c,
                   match_status = None, access_decision = None, reason = None\<rparr>"
        by (simp add: one_sided_def)
      from sides_apart_update [OF st1 this] Inr None True cd run show ?thesis
        by (simp add: process_id_card_detection_def check_pending_verification_def)
    next
      case (Some e)
      from pending_loop_match_side [OF run [unfolded Inr Some]]
      have "e \<in> snd ` set ?items" and "id_card e \<noteq> None"
        by (auto simp: truthy_def)
      with items have "vehicle e = None"
        by (auto simp: list_all_iff one_sided_def)
      then have "sides_apart cfg
           (save_access_log cfg (fst (match_vehicle_and_id cfg t1 (vehicle e) (Some c) st1))
              (snd (match_vehicle_and_id cfg t1 (vehicle e) (Some c) st1)))"
        using st1 by (intro sides_apart_match) simp_all
      with Inr Some True cd run show ?thesis
        by (simp add: process_id_card_detection_def check_pending_verification_def
            case_prod_beta Let_def split: sum.splits)
    qed
  qed
qed

lemma observe_sides_apart: "sides_apart cfg st \<Longrightarrow> sides_apart cfg (observe cfg ev st)"
  by (cases "(cfg, ev, st)" rule: observe.cases)
    (simp_all add: process_vehicle_detection_sides_apart process_id_card_detection_sides_apart)

lemma run_matcher_sides_apart:
  "sides_apart cfg st \<Longrightarrow> sides_apart cfg (run_matcher cfg evs st)"
  by (induction evs arbitrary: st) (simp_all add: observe_sides_apart)

text \<open>
  The consequence of the lookup comparing a key with the same side of the pending
  entries: over every sequence of observations, no logged record holds both a vehicle
  and an identity, and in both-required mode no logged record is a grant.
\<close>

lemma no_decision_combines_both_sides:
  "list_all (\<lambda>r. vehicle r = None \<or> id_card r = None)
     (access_log (run_matcher cfg evs initial_system))"
proof -
  have "sides_apart cfg initial_system"
    by (simp add: sides_apart_def initial_system_def)
  then have "sides_apart cfg (run_matcher cfg evs initial_system)"
    by (rule run_matcher_sides_apart)
  then show ?thesis
    by (simp add: sides_apart_def one_sided_def list_all_iff)
qed

lemma both_required_never_grants:
  assumes "REQUIRE_BOTH_VERIFICATIONS cfg"
  shows "list_all (\<lambda>r. access_decision r = Some ''denied'')
     (access_log (run_matcher cfg evs initial_system))"
proof -
  have "sides_apart cfg initial_system"
    by (simp add: sides_apart_def initial_system_def)
  then have "sides_apart cfg (run_matcher cfg evs initial_system)"
    by (rule run_matcher_sides_apart)
  with assms show ?thesis
    by (simp add: sides_apart_def list_all_iff)
qed

section \<open>Policy evaluation is as configured\<close>

text \<open>
  C5. For every pair of vehicle data and id card data, a side counts when it is
  present and its \<open>is_valid\<close> is set. In both-required mode the decision of
  \<open>match_vehicle_and_id\<close> is granted exactly when both sides count, and is otherwise
  denied with the reason "Both vehicle and ID card required"; in either-sufficient
  mode it is granted exactly when at least one side counts and denied otherwise.
\<close>

theorem match_vehicle_and_id_policy:
  "access_decision (fst (match_vehicle_and_id cfg ts vd cd st)) =
     (if REQUIRE_BOTH_VERIFICATIONS cfg
      then (if (\<exists>v. vd = Some v \<and> v_is_valid v) \<and> (\<exists>c. cd = Some c \<and> c_is_valid c)
            then Some ''granted'' else Some ''denied'')
      else (if (\<exists>v. vd = Some v \<and> v_is_valid v) \<or> (\<exists>c. cd = Some c \<and> c_is_valid c)
            then Some ''granted'' else Some ''denied''))
   \<and> reason (fst (match_vehicle_and_id cfg ts vd cd st)) =
     (if REQUIRE_BOTH_VERIFICATIONS cfg
      then (if (\<exists>v. vd = Some v \<and> v_is_valid v) \<and> (\<exists>c. cd = Some c \<and> c_is_valid c)
            then None else Some ''Both vehicle and ID card required'')
      else (if (\<exists>v. vd = Some v \<and> v_is_valid v) \<or> (\<exists>c. cd = Some c \<and> c_is_valid c)
            then None else Some ''No valid identification''))
   \<and> vehicle (fst (match_vehicle_and_id cfg ts vd cd st)) = vd
   \<and> id_card (fst (match_vehicle_and_id cfg ts vd cd st)) = cd"
proof -
  have v: "vehicle_valid vd = (\<exists>v. vd = Some v \<and> v_is_valid v)"
    by (cases vd) (simp_all add: vehicle_valid_def)
  have c: "id_card_valid cd = (\<exists>c. cd = Some c \<and> c_is_valid c)"
    by (cases cd) (simp_all add: id_card_valid_def)
  show ?thesis
    unfolding v [symmetric] c [symmetric]
    by (simp add: match_vehicle_and_id_def Let_def)
qed

section \<open>Properties of the field extractor\<close>

subsection \<open>Identifier extraction\<close>

lemma first_at_shift:
  assumes "\<And>i g. P (Suc i) g = Q i g"
  shows "first_at P g = (P 0 g \<or> ((\<forall>h. \<not> P 0 h) \<and> first_at Q g))"
proof
  assume "first_at P g"
  then obtain i where i: "P i g" and least: "\<forall>j<i. \<forall>h. \<not> P j h"
    by (auto simp: first_at_def)
  show "P 0 g \<or> ((\<forall>h. \<not> P 0 h) \<and> first_at Q g)"
  proof (cases i)
    case 0
    with i show ?thesis by simp
  next
    case (Suc k)
    with i assms have "Q k g" by simp
    moreover from least Suc assms have "\<forall>j<k. \<forall>h. \<not> Q j h"
      by (metis Suc_less_eq)
    moreover from least Suc have "\<forall>h. \<not> P 0 h" by simp
    ultimately show ?thesis by (auto simp: first_at_def)
  qed
next
  assume r: "P 0 g \<or> ((\<forall>h. \<not> P 0 h) \<and> first_at Q g)"
  show "first_at P g"
  proof (cases "P 0 g")
    case True
    then show ?thesis by (auto simp: first_at_def)
  next
    case False
    with r have no0: "\<forall>h. \<not> P 0 h" and "first_at Q g" by auto
    then obtain k where k: "Q k g" and least: "\<forall>j<k. \<forall>h. \<not> Q j h"
      by (auto simp: first_at_def)
    have "\<forall>j<Suc k. \<forall>h. \<not> P j h"
    proof (intro allI impI)
      fix j h assume "j < Suc k"
      then show "\<not> P j h"
        using no0 least assms by (cases j) auto
    qed
    with k assms show ?thesis
      unfolding first_at_def by (intro exI [of _ "Suc k"]) simp
  qed
qed

lemma nowhere_shift:
  assumes "\<And>i g. P (Suc i) g = Q i g"
  shows "nowhere P = ((\<forall>h. \<not> P 0 h) \<and> nowhere Q)"
proof -
  have "(\<forall>i g. \<not> P i g) = ((\<forall>h. \<not> P 0 h) \<and> (\<forall>i g. \<not> P (Suc i) g))"
    by (metis not0_implies_Suc)
  with assms show ?thesis by (simp add: nowhere_def)
qed

lemma matches_at_0: "matches_at m t 0 g = (m t = Some g)"
  by (simp add: matches_at_def)

lemma matches_at_Suc: "matches_at m (c # cs) (Suc i) g = matches_at m cs i g"
  by (simp add: matches_at_def)

lemma matches_at_Nil: "matches_at m [] i g = (i = 0 \<and> m [] = Some g)"
  by (auto simp: matches_at_def)

lemma search_Some_iff: "(search m t = Some g) = first_at (matches_at m t) g"
proof (induction t)
  case Nil
  show ?case by (auto simp: first_at_def matches_at_Nil)
next
  case (Cons c cs)
  show ?case
    by (subst first_at_shift [where Q = "matches_at m cs"])
      (auto simp: matches_at_Suc matches_at_0 Cons.IH split: option.splits)
qed

lemma search_None_iff: "(search m t = None) = nowhere (matches_at m t)"
proof (induction t)
  case Nil
  show ?case by (auto simp: nowhere_def matches_at_Nil)
next
  case (Cons c cs)
  show ?case
    by (subst nowhere_shift [where Q = "matches_at m cs"])
      (auto simp: matches_at_Suc matches_at_0 Cons.IH split: option.splits)
qed

lemma wb_at_0: "wb_at m pw t 0 g = (\<not> pw \<and> m t = Some g)"
  by (simp add: wb_at_def)

lemma wb_at_Suc: "wb_at m pw (c # cs) (Suc i) g = wb_at m (is_word c) cs i g"
  by (cases i) (simp_all add: wb_at_def)

lemma wb_at_Nil: "wb_at m pw [] i g = (i = 0 \<and> \<not> pw \<and> m [] = Some g)"
  by (auto simp: wb_at_def)

lemma search_wb_Some_iff: "(search_wb m pw t = Some g) = first_at (wb_at m pw t) g"
proof (induction t arbitrary: pw)
  case Nil
  show ?case by (auto simp: first_at_def wb_at_Nil)
next
  case (Cons c cs)
  show ?case
    by (subst first_at_shift [where Q = "wb_at m (is_word c) cs"])
      (auto simp: wb_at_Suc wb_at_0 Cons.IH split: option.splits)
qed

lemma search_wb_None_iff: "(search_wb m pw t = None) = nowhere (wb_at m pw t)"
proof (induction t arbitrary: pw)
  case Nil
  show ?case by (auto simp: nowhere_def wb_at_Nil)
next
  case (Cons c cs)
  show ?case
    by (subst nowhere_shift [where Q = "wb_at m (is_word c) cs"])
      (auto simp: wb_at_Suc wb_at_0 Cons.IH split: option.splits)
qed


lemma word_end_drop:
  "n \<le> length t \<Longrightarrow> word_end (drop n t) = (n = length t \<or> \<not> is_word (t ! n))"
  by (cases "drop n t") (auto simp: word_end_def dest: nth_via_drop)

lemma match_8digits_Some_iff:
  "(match_8digits s = Some g) =
     (8 \<le> length s \<and> g = take 8 s \<and> list_all is_digit g \<and> word_end (drop 8 s))"
  by (auto simp: match_8digits_def digits8_def)

lemma match_2_7digits_Some_iff:
  "(match_2_7digits s = Some g) = (match_8digits s = Some g \<and> hd g = CHR ''2'')"
  by (auto simp: match_2_7digits_def split: option.splits)

lemma wb_at_match_8digits: "wb_at match_8digits False t i g = digit_word_at t i g"
proof (cases "i + 8 \<le> length t")
  case True
  then have "word_end (drop 8 (drop i t)) = (i + 8 = length t \<or> \<not> is_word (t ! (i + 8)))"
    using word_end_drop [of "i + 8" t] by (simp add: add.commute)
  with True show ?thesis
    by (auto simp: wb_at_def digit_word_at_def word_start_def match_8digits_Some_iff)
next
  case False
  then show ?thesis
    by (auto simp: wb_at_def digit_word_at_def match_8digits_Some_iff)
qed

lemma wb_at_match_2_7digits: "wb_at match_2_7digits False t i g = digit_word2_at t i g"
proof (cases "i + 8 \<le> length t")
  case True
  then have "hd (take 8 (drop i t)) = t ! i"
    by (simp add: hd_drop_conv_nth)
  then show ?thesis
    using wb_at_match_8digits [of t i g]
    by (auto simp: wb_at_def digit_word2_at_def digit_word_at_def match_2_7digits_Some_iff)
next
  case False
  then show ?thesis
    using wb_at_match_8digits [of t i g]
    by (auto simp: wb_at_def digit_word2_at_def digit_word_at_def match_2_7digits_Some_iff)
qed

lemma wb_at_match_8digits_fun: "wb_at match_8digits False t = digit_word_at t"
  by (intro ext) (rule wb_at_match_8digits)

lemma wb_at_match_2_7digits_fun: "wb_at match_2_7digits False t = digit_word2_at t"
  by (intro ext) (rule wb_at_match_2_7digits)

text \<open>
  What the two label patterns match at a position: the letters ID in any case, for
  the first pattern white space and the letters NO in any case, then colons and white
  space, then the eight digits of the group.
\<close>

lemma digit_not_label_sep: "is_digit c \<Longrightarrow> \<not> is_label_sep c"
  by (auto simp: is_digit_def is_label_sep_def is_space_def)

lemma space_not_n: "is_space c \<Longrightarrow> lower_char c \<noteq> CHR ''n''"
  by (auto simp: is_space_def lower_char_def)

lemma digits8_Some_iff:
  "(digits8 s = Some g) = (\<exists>rest. s = g @ rest \<and> length g = 8 \<and> list_all is_digit g)"
proof
  assume "digits8 s = Some g"
  then have "s = g @ drop 8 s" and "length g = 8" and "list_all is_digit g"
    by (auto simp: digits8_def split: if_splits)
  then show "\<exists>rest. s = g @ rest \<and> length g = 8 \<and> list_all is_digit g" by blast
next
  assume "\<exists>rest. s = g @ rest \<and> length g = 8 \<and> list_all is_digit g"
  then show "digits8 s = Some g"
    by (auto simp: digits8_def)
qed

lemma dropWhile_seps_digits:
  assumes "list_all P seps" and "length g = 8" and "list_all is_digit g"
    and "\<And>c. is_digit c \<Longrightarrow> \<not> P c"
  shows "dropWhile P (seps @ g @ rest) = g @ rest"
proof -
  from assms(2) obtain d g' where g: "g = d # g'" by (cases g) auto
  with assms(3,4) have "\<not> P d" by simp
  with g have "dropWhile P (g @ rest) = g @ rest" by simp
  moreover from assms(1) have "dropWhile P (seps @ g @ rest) = dropWhile P (g @ rest)"
    by (intro dropWhile_append2) (simp add: list_all_iff)
  ultimately show ?thesis by simp
qed

lemma match_id_Some_iff:
  "(match_id s = Some g) =
     (\<exists>c1 c2 seps rest. s = c1 # c2 # seps @ g @ rest
        \<and> lower_char c1 = CHR ''i'' \<and> lower_char c2 = CHR ''d''
        \<and> list_all is_label_sep seps \<and> length g = 8 \<and> list_all is_digit g)"
proof
  assume m: "match_id s = Some g"
  then obtain c1 c2 r where s: "s = c1 # c2 # r"
    and c: "lower_char c1 = CHR ''i''" "lower_char c2 = CHR ''d''"
    and d: "digits8 (dropWhile is_label_sep r) = Some g"
    by (auto simp: match_id_def split: list.splits if_splits)
  from d obtain rest where r: "dropWhile is_label_sep r = g @ rest"
    and g: "length g = 8" "list_all is_digit g"
    by (auto simp: digits8_Some_iff)
  have "r = takeWhile is_label_sep r @ g @ rest"
    using r takeWhile_dropWhile_id [of is_label_sep r] by simp
  moreover have "list_all is_label_sep (takeWhile is_label_sep r)"
    by (auto simp: list_all_iff dest: set_takeWhileD)
  ultimately show "\<exists>c1 c2 seps rest. s = c1 # c2 # seps @ g @ rest
        \<and> lower_char c1 = CHR ''i'' \<and> lower_char c2 = CHR ''d''
        \<and> list_all is_label_sep seps \<and> length g = 8 \<and> list_all is_digit g"
    using s c g by blast
next
  assume "\<exists>c1 c2 seps rest. s = c1 # c2 # seps @ g @ rest
        \<and> lower_char c1 = CHR ''i'' \<and> lower_char c2 = CHR ''d''
        \<and> list_all is_label_sep seps \<and> length g = 8 \<and> list_all is_digit g"
  then obtain c1 c2 seps rest where s: "s = c1 # c2 # seps @ g @ rest"
    and c: "lower_char c1 = CHR ''i''" "lower_char c2 = CHR ''d''"
    and seps: "list_all is_label_sep seps" and g: "length g = 8" "list_all is_digit g"
    by blast
  from dropWhile_seps_digits [OF seps g digit_not_label_sep]
  have "dropWhile is_label_sep (seps @ g @ rest) = g @ rest" .
  with s c g show "match_id s = Some g"
    by (auto simp: match_id_def digits8_Some_iff)
qed

lemma match_id_no_Some_iff:
  "(match_id_no s = Some g) =
     (\<exists>c1 c2 spaces c3 c4 seps rest. s = c1 # c2 # spaces @ c3 # c4 # seps @ g @ rest
        \<and> lower_char c1 = CHR ''i'' \<and> lower_char c2 = CHR ''d'' \<and> list_all is_space spaces
        \<and> lower_char c3 = CHR ''n'' \<and> lower_char c4 = CHR ''o''
        \<and> list_all is_label_sep seps \<and> length g = 8 \<and> list_all is_digit g)"
proof
  assume m: "match_id_no s = Some g"
  then obtain c1 c2 r c3 c4 r2 where s: "s = c1 # c2 # r"
    and c: "lower_char c1 = CHR ''i''" "lower_char c2 = CHR ''d''"
    and r: "dropWhile is_space r = c3 # c4 # r2"
    and n: "lower_char c3 = CHR ''n''" "lower_char c4 = CHR ''o''"
    and d: "digits8 (dropWhile is_label_sep r2) = Some g"
    by (auto simp: match_id_no_def split: list.splits if_splits)
  from d obtain rest where r2: "dropWhile is_label_sep r2 = g @ rest"
    and g: "length g = 8" "list_all is_digit g"
    by (auto simp: digits8_Some_iff)
  have "r2 = takeWhile is_label_sep r2 @ g @ rest"
    using r2 takeWhile_dropWhile_id [of is_label_sep r2] by simp
  moreover have "r = takeWhile is_space r @ c3 # c4 # r2"
    using r takeWhile_dropWhile_id [of is_space r] by simp
  ultimately have "s = c1 # c2 # takeWhile is_space r @ c3 # c4 #
      takeWhile is_label_sep r2 @ g @ rest"
    using s by simp
  moreover have "list_all is_label_sep (takeWhile is_label_sep r2)"
    by (auto simp: list_all_iff dest: set_takeWhileD)
  moreover have "list_all is_space (takeWhile is_space r)"
    by (auto simp: list_all_iff dest: set_takeWhileD)
  ultimately show "\<exists>c1 c2 spaces c3 c4 seps rest. s = c1 # c2 # spaces @ c3 # c4 # seps @ g @ rest
        \<and> lower_char c1 = CHR ''i'' \<and> lower_char c2 = CHR ''d'' \<and> list_all is_space spaces
        \<and> lower_char c3 = CHR ''n'' \<and> lower_char c4 = CHR ''o''
        \<and> list_all is_label_sep seps \<and> length g = 8 \<and> list_all is_digit g"
    using c n g by blast
next
  assume "\<exists>c1 c2 spaces c3 c4 seps rest. s = c1 # c2 # spaces @ c3 # c4 # seps @ g @ rest
        \<and> lower_char c1 = CHR ''i'' \<and> lower_char c2 = CHR ''d'' \<and> list_all is_space spaces
        \<and> lower_char c3 = CHR ''n'' \<and> lower_char c4 = CHR ''o''
        \<and> list_all is_label_sep seps \<and> length g = 8 \<and> list_all is_digit g"
  then obtain c1 c2 spaces c3 c4 seps rest where
    s: "s = c1 # c2 # spaces @ c3 # c4 # seps @ g @ rest"
    and c: "lower_char c1 = CHR ''i''" "lower_char c2 = CHR ''d''"
    and sp: "list_all is_space spaces"
    and n: "lower_char c3 = CHR ''n''" "lower_char c4 = CHR ''o''"
    and seps: "list_all is_label_sep seps" and g: "length g = 8" "list_all is_digit g"
    by blast
  from n(1) space_not_n have "\<not> is_space c3" by blast
  then have "dropWhile is_space (c3 # c4 # seps @ g @ rest) = c3 # c4 # seps @ g @ rest"
    by simp
  moreover from sp have "dropWhile is_space (spaces @ c3 # c4 # seps @ g @ rest)
      = dropWhile is_space (c3 # c4 # seps @ g @ rest)"
    by (intro dropWhile_append2) (simp add: list_all_iff)
  ultimately have 1: "dropWhile is_space (spaces @ c3 # c4 # seps @ g @ rest)
      = c3 # c4 # seps @ g @ rest" by simp
  from dropWhile_seps_digits [OF seps g digit_not_label_sep]
  have 2: "dropWhile is_label_sep (seps @ g @ rest) = g @ rest" .
  from s c n g 1 2 show "match_id_no s = Some g"
    by (simp add: match_id_no_def digits8_Some_iff)
qed

text \<open>
  C7 (as amended). The identifier is the group of the first match of the label pattern
  ID NO; when that pattern matches nowhere, of the first match of the label pattern
  ID; when neither matches, the first 8-digit word that starts with 2; when there is
  none, the first 8-digit word. It is null exactly when no label pattern matches and
  the text has no 8-digit word.
\<close>

theorem extract_moodle_id_first_candidate:
  "(extract_moodle_id t = Some g) =
     (first_at (matches_at match_id_no t) g
      \<or> nowhere (matches_at match_id_no t) \<and> first_at (matches_at match_id t) g
      \<or> nowhere (matches_at match_id_no t) \<and> nowhere (matches_at match_id t)
          \<and> first_at (digit_word2_at t) g
      \<or> nowhere (matches_at match_id_no t) \<and> nowhere (matches_at match_id t)
          \<and> nowhere (digit_word2_at t) \<and> first_at (digit_word_at t) g)
   \<and> (extract_moodle_id t = None) =
     (nowhere (matches_at match_id_no t) \<and> nowhere (matches_at match_id t)
      \<and> nowhere (digit_word_at t))"
proof -
  define a where "a = search match_id_no t"
  define b where "b = search match_id t"
  define c where "c = search_wb match_2_7digits False t"
  define d where "d = search_wb match_8digits False t"
  have "nowhere (digit_word_at t) \<Longrightarrow> nowhere (digit_word2_at t)"
    by (simp add: nowhere_def digit_word2_at_def)
  then have dc: "d = None \<Longrightarrow> c = None"
    by (simp add: c_def d_def search_wb_None_iff wb_at_match_8digits_fun
        wb_at_match_2_7digits_fun)
  have ex: "extract_moodle_id t =
      (case a of Some g \<Rightarrow> Some g | None \<Rightarrow>
         (case b of Some g \<Rightarrow> Some g | None \<Rightarrow>
            (case c of Some g \<Rightarrow> Some g | None \<Rightarrow> d)))"
    by (simp add: extract_moodle_id_def moodle_patterns_def a_def b_def c_def d_def
        split: option.splits)
  have iffs:
    "first_at (matches_at match_id_no t) g = (a = Some g)"
    "nowhere (matches_at match_id_no t) = (a = None)"
    "first_at (matches_at match_id t) g = (b = Some g)"
    "nowhere (matches_at match_id t) = (b = None)"
    "first_at (digit_word2_at t) g = (c = Some g)"
    "nowhere (digit_word2_at t) = (c = None)"
    "first_at (digit_word_at t) g = (d = Some g)"
    "nowhere (digit_word_at t) = (d = None)"
    by (simp_all add: a_def b_def c_def d_def search_Some_iff search_None_iff
        search_wb_Some_iff search_wb_None_iff wb_at_match_8digits_fun
        wb_at_match_2_7digits_fun)
  show ?thesis
    unfolding iffs ex using dc
    by (cases a; cases b; cases c; cases d) auto
qed

text \<open>
  In the text \<open>x 22102003,\<close> no label occurs and the 8-digit word at index 2 is
  returned.
\<close>

theorem extract_moodle_id_first_candidate_witness:
  "nowhere (matches_at match_id_no ''x 22102003,'')
   \<and> nowhere (matches_at match_id ''x 22102003,'')
   \<and> first_at (digit_word2_at ''x 22102003,'') ''22102003''
   \<and> extract_moodle_id ''x 22102003,'' = Some ''22102003''"
proof -
  have a: "search match_id_no ''x 22102003,'' = None" by code_simp
  have b: "search match_id ''x 22102003,'' = None" by code_simp
  have c: "search_wb match_2_7digits False ''x 22102003,'' = Some ''22102003''" by code_simp
  have na: "nowhere (matches_at match_id_no ''x 22102003,'')"
    unfolding search_None_iff [symmetric] by (rule a)
  have nb: "nowhere (matches_at match_id ''x 22102003,'')"
    unfolding search_None_iff [symmetric] by (rule b)
  have fc: "first_at (digit_word2_at ''x 22102003,'') ''22102003''"
    unfolding wb_at_match_2_7digits_fun [symmetric] search_wb_Some_iff [symmetric]
    by (rule c)
  from na nb fc have "extract_moodle_id ''x 22102003,'' = Some ''22102003''"
    using extract_moodle_id_first_candidate [of "''x 22102003,''" "''22102003''"] by blast
  with na nb fc show ?thesis by blast
qed

text \<open>
  C7, as stated, fails twice. After the label ID NO the eight digits 12345678 are
  returned although a run of eight digits starting with 2 follows; and the run
  22102003 directly after a letter is no word, so null is returned although a
  candidate exists.
\<close>

theorem label_and_word_boundary_change_identifier:
  "extract_moodle_id ''ID NO: 12345678 22102003'' = Some ''12345678''
   \<and> first_identifier_substring ''ID NO: 12345678 22102003'' = Some ''22102003''
   \<and> extract_moodle_id ''x22102003'' = None
   \<and> first_identifier_substring ''x22102003'' = Some ''22102003''"
  by code_simp

subsection \<open>Name extraction\<close>

lemma sample_text_eq: "sample_text = ''ANITA DESHPANDE 12345 RAHUL KUMAR J''"
  by (simp add: sample_text_def sample_ocr_def)

lemma valid_anita: "is_valid_name ''ANITA DESHPANDE''"
  by code_simp

lemma valid_rahul: "is_valid_name ''RAHUL KUMAR J''"
  by code_simp

lemma invalid_digits: "\<not> is_valid_name ''12345''"
  by code_simp

lemma sample_candidates: "name_candidates ''ANITA DESHPANDE 12345 RAHUL KUMAR J'' = [''ANITA DESHPANDE'', ''RAHUL KUMAR J'']"
  by code_simp

lemma max_by_len_ge: "length best \<le> length (max_by_len best xs)"
proof (induction xs arbitrary: best)
  case Nil
  show ?case by simp
next
  case (Cons x xs)
  from Cons [of x] Cons [of best] show ?case
    by auto
qed

lemma max_by_len_first_longest:
  "\<exists>pre post. best # xs = pre @ max_by_len best xs # post
      \<and> list_all (\<lambda>c. length c < length (max_by_len best xs)) pre
      \<and> list_all (\<lambda>c. length c \<le> length (max_by_len best xs)) post"
proof (induction xs arbitrary: best)
  case Nil
  show ?case by (intro exI [of _ "[]"]) simp
next
  case (Cons x xs)
  show ?case
  proof (cases "length best < length x")
    case True
    let ?m = "max_by_len x xs"
    from Cons [of x] obtain pre post where
      split: "x # xs = pre @ ?m # post"
      and pre: "list_all (\<lambda>c. length c < length ?m) pre"
      and post: "list_all (\<lambda>c. length c \<le> length ?m) post"
      by blast
    from True max_by_len_ge [of x xs] have "length best < length ?m" by simp
    with pre have "list_all (\<lambda>c. length c < length ?m) (best # pre)" by simp
    moreover from split have "best # x # xs = (best # pre) @ ?m # post" by simp
    moreover have "max_by_len best (x # xs) = ?m" using True by simp
    ultimately show ?thesis
      using post by metis
  next
    case False
    let ?m = "max_by_len best xs"
    from Cons [of best] obtain pre post where
      split: "best # xs = pre @ ?m # post"
      and pre: "list_all (\<lambda>c. length c < length ?m) pre"
      and post: "list_all (\<lambda>c. length c \<le> length ?m) post"
      by blast
    have m: "max_by_len best (x # xs) = ?m" using False by simp
    show ?thesis
    proof (cases pre)
      case Nil
      with split have "best # xs = ?m # post" by (metis append_Nil)
      then have "?m = best" and "post = xs" by (metis list.inject)+
      with post False have "list_all (\<lambda>c. length c \<le> length ?m) (x # xs)"
        by simp
      moreover from \<open>?m = best\<close> have "best # x # xs = [] @ ?m # (x # xs)" by simp
      ultimately show ?thesis
        unfolding m by (metis list.pred_inject(1))
    next
      case (Cons p pre1)
      with split have "best # xs = p # (pre1 @ ?m # post)" by (metis append_Cons)
      then have p: "p = best" and xs: "xs = pre1 @ ?m # post" by (metis list.inject)+
      from pre Cons p have lt: "length best < length ?m"
        and pre1: "list_all (\<lambda>c. length c < length ?m) pre1" by simp_all
      from lt False have "length x < length ?m" by simp
      with lt pre1 have "list_all (\<lambda>c. length c < length ?m) (best # x # pre1)" by simp
      moreover from xs have "best # x # xs = (best # x # pre1) @ ?m # post" by simp
      ultimately show ?thesis
        unfolding m using post by metis
    qed
  qed
qed

lemma is_valid_name_filters:
  "is_valid_name n =
     (let s = upper (strip n)
      in list_all (\<lambda>c. is_alpha c \<or> is_space c) s
         \<and> 6 \<le> length s \<and> length s \<le> 30
         \<and> \<not> list_ex (\<lambda>p. contains p (lower s)) invalid_name_patterns
         \<and> (CHR '' '' \<in> set s \<or> 8 \<le> length s)
         \<and> (case split s of [w] \<Rightarrow> 8 \<le> length w | _ \<Rightarrow> True)
         \<and> length s \<le> 5 * vowel_count (lower s))"
  by (auto simp: is_valid_name_def Let_def split: list.splits)

text \<open>
  \<open>finditer\<close> returns the matches from the left without overlap, and nothing else
  does.
\<close>

lemma matches_from_step:
  assumes "m (drop p t) = None" and "matches_from m t (Suc p) gs"
  shows "matches_from m t p gs"
  using assms(2)
proof (cases rule: matches_from.cases)
  case no_more
  have "m (drop i t) = None" if "p \<le> i" "i \<le> length t" for i
    using that no_more(2) [of i] assms(1) by (cases "i = p") auto
  with no_more(1) show ?thesis
    by (auto intro: matches_from.no_more)
next
  case (next_match i g n gs')
  have "m (drop j t) = None" if "p \<le> j" "j < i" for j
    using that next_match(5) [of j] assms(1) by (cases "j = p") auto
  with next_match show ?thesis
    by (auto intro: matches_from.next_match [of p i])
qed

lemma drop_eq_ConsD:
  assumes "c # cs = drop p t"
  shows "cs = drop (Suc p) t" and "Suc p \<le> length t"
proof -
  from assms show "cs = drop (Suc p) t"
    by (metis drop_Suc tl_drop list.sel(3))
  from assms have "p < length t"
    by (metis drop_all leI list.distinct(1))
  then show "Suc p \<le> length t" by simp
qed

lemma finditer_from_matches:
  "m [] = None \<Longrightarrow> (\<And>s g n. m s = Some (g, n) \<Longrightarrow> 1 \<le> n)
     \<Longrightarrow> s = drop p t \<Longrightarrow> p \<le> length t
     \<Longrightarrow> matches_from m t (p + skip) (finditer_from m skip s)"
proof (induction m skip s arbitrary: p rule: finditer_from.induct)
  case (1 m skip)
  from 1(3,4) have p: "p = length t" by simp
  have "matches_from m t (p + skip) []"
  proof (rule matches_from.no_more)
    fix i assume "p + skip \<le> i" "i \<le> length t"
    with p have "i = length t" by simp
    with 1(1) show "m (drop i t) = None" by simp
  qed
  then show ?case by simp
next
  case (2 m k c cs)
  from drop_eq_ConsD [OF 2(4)] have cs: "cs = drop (Suc p) t" and le: "Suc p \<le> length t" .
  from 2(1) [OF 2(2) 2(3) cs le] show ?case by simp
next
  case (3 m c cs)
  from drop_eq_ConsD [OF 3(5)] have cs: "cs = drop (Suc p) t" and le: "Suc p \<le> length t" .
  show ?case
  proof (cases "m (c # cs)")
    case None
    from 3(1) [OF None 3(3) 3(4) cs le]
    have "matches_from m t (Suc p) (finditer_from m 0 cs)" by simp
    moreover from None 3(5) have "m (drop p t) = None" by simp
    ultimately have "matches_from m t p (finditer_from m 0 cs)"
      by (simp add: matches_from_step)
    with None show ?thesis by simp
  next
    case (Some gn)
    obtain g n where gn: "gn = (g, n)" by (cases gn)
    with Some 3(4) have n: "1 \<le> n" by blast
    from 3(2) [OF Some gn [symmetric] 3(3) 3(4) cs le]
    have "matches_from m t (Suc p + (n - 1)) (finditer_from m (n - 1) cs)" .
    with n have rest: "matches_from m t (p + n) (finditer_from m (n - 1) cs)" by simp
    from Some gn 3(5) have here: "m (drop p t) = Some (g, n)" by simp
    have "matches_from m t p (g # finditer_from m (n - 1) cs)"
      using here 3(6) rest
      by (intro matches_from.next_match [of p p]) auto
    with Some gn show ?thesis by simp
  qed
qed

lemma matches_from_unique:
  assumes "matches_from m t start gs" and "matches_from m t start hs"
  shows "gs = hs"
  using assms
proof (induction arbitrary: hs rule: matches_from.induct)
  case (no_more start)
  from no_more(2) show ?case
  proof (cases rule: matches_from.cases)
    case no_more
    then show ?thesis by simp
  next
    case (next_match i g n gs')
    with no_more(1) [of i] show ?thesis by simp
  qed
next
  case (next_match start i g n gs)
  from next_match(7) show ?case
  proof (cases rule: matches_from.cases)
    case no_more
    with next_match(1,2,3) show ?thesis by force
  next
    case (next_match i' g' n' gs')
    have "i = i'"
    proof (rule ccontr)
      assume "i \<noteq> i'"
      then consider "i < i'" | "i' < i" by linarith
      then show False
      proof cases
        case 1
        with next_match(5) [of i] \<open>start \<le> i\<close> \<open>m (drop i t) = Some (g, n)\<close>
        show False by simp
      next
        case 2
        with \<open>\<And>j. start \<le> j \<Longrightarrow> j < i \<Longrightarrow> m (drop j t) = None\<close> [of i']
          next_match(2,4) show False by simp
      qed
    qed
    with next_match \<open>m (drop i t) = Some (g, n)\<close> have "g = g'" and "n = n'" by simp_all
    with next_match(6) \<open>i = i'\<close> have "matches_from m t (i + n) gs'" by simp
    from \<open>\<And>hs. matches_from m t (i + n) hs \<Longrightarrow> gs = hs\<close> [OF this] \<open>g = g'\<close> next_match(1)
    show ?thesis by simp
  qed
qed

lemma finditer_iff:
  assumes "m [] = None" and "\<And>s g n. m s = Some (g, n) \<Longrightarrow> 1 \<le> n"
  shows "matches_from m t 0 gs = (finditer m t = gs)"
proof -
  have "matches_from m t (0 + 0) (finditer_from m 0 t)"
    using assms by (intro finditer_from_matches) simp_all
  then have "matches_from m t 0 (finditer m t)" by (simp add: finditer_def)
  then show ?thesis
    using matches_from_unique by blast
qed


text \<open>
  The string methods and the two name patterns, by the parts of the text: a substring
  test, the join with single spaces, the white space stripped at both ends; an
  upper-case letter with 10 to 50 upper-case letters or white space after it, as many
  as there are up to 50; the label Name, colons or white space, an upper-case letter
  and all the letters and white space that follow, at least one.
\<close>

lemma starts_with_iff: "starts_with p s = (\<exists>r. s = p @ r)"
  by (induction p s rule: starts_with.induct) auto

lemma contains_iff: "contains sub s = (\<exists>l r. s = l @ sub @ r)"
proof (induction s)
  case Nil
  show ?case by auto
next
  case (Cons c cs)
  have "(\<exists>l r. c # cs = l @ sub @ r) = ((\<exists>r. c # cs = sub @ r) \<or> (\<exists>l r. cs = l @ sub @ r))"
  proof
    assume "\<exists>l r. c # cs = l @ sub @ r"
    then obtain l r where lr: "c # cs = l @ sub @ r" by blast
    show "(\<exists>r. c # cs = sub @ r) \<or> (\<exists>l r. cs = l @ sub @ r)"
    proof (cases l)
      case Nil
      with lr show ?thesis by auto
    next
      case (Cons x l')
      with lr have "cs = l' @ sub @ r" by simp
      then show ?thesis by blast
    qed
  next
    assume "(\<exists>r. c # cs = sub @ r) \<or> (\<exists>l r. cs = l @ sub @ r)"
    then show "\<exists>l r. c # cs = l @ sub @ r"
    proof
      assume "\<exists>r. c # cs = sub @ r"
      then obtain r where "c # cs = [] @ sub @ r" by auto
      then show ?thesis by blast
    next
      assume "\<exists>l r. cs = l @ sub @ r"
      then obtain l r where "c # cs = (c # l) @ sub @ r" by auto
      then show ?thesis by blast
    qed
  qed
  with Cons show ?case
    by (simp add: starts_with_iff)
qed

lemma join_space_concat:
  "xs \<noteq> [] \<Longrightarrow> join_space xs @ '' '' = concat (map (\<lambda>x. x @ '' '') xs)"
  by (induction xs rule: join_space.induct) simp_all

lemma strip_parts:
  "\<exists>l r. s = l @ strip s @ r \<and> list_all is_space l \<and> list_all is_space r
      \<and> (strip s = [] \<or> \<not> is_space (hd (strip s)) \<and> \<not> is_space (last (strip s)))"
proof -
  let ?u = "dropWhile is_space s"
  let ?l = "takeWhile is_space s"
  let ?r = "rev (takeWhile is_space (rev ?u))"
  have u: "?u = strip s @ ?r"
  proof -
    have "takeWhile is_space (rev ?u) @ dropWhile is_space (rev ?u) = rev ?u"
      by (rule takeWhile_dropWhile_id)
    then have "rev (takeWhile is_space (rev ?u) @ dropWhile is_space (rev ?u)) = rev (rev ?u)"
      by (simp only:)
    then show ?thesis by (simp only: rev_append rev_rev_ident strip_def)
  qed
  have "s = ?l @ ?u" by simp
  with u have split: "s = ?l @ strip s @ ?r" by simp
  have l: "list_all is_space ?l"
    by (auto simp: list_all_iff dest: set_takeWhileD)
  have r: "list_all is_space ?r"
    by (auto simp: list_all_iff dest: set_takeWhileD)
  have ends: "\<not> is_space (hd (strip s)) \<and> \<not> is_space (last (strip s))" if ne: "strip s \<noteq> []"
  proof -
    from ne have d: "dropWhile is_space (rev ?u) \<noteq> []" by (simp add: strip_def)
    then have "\<not> is_space (hd (dropWhile is_space (rev ?u)))" by (rule hd_dropWhile)
    with d have last: "\<not> is_space (last (strip s))"
      by (simp add: strip_def last_rev)
    from ne u have "?u \<noteq> []" by (metis Nil_is_append_conv)
    then have "\<not> is_space (hd ?u)" by (rule hd_dropWhile)
    moreover from ne u have "hd ?u = hd (strip s)" by (metis hd_append2)
    ultimately show ?thesis using last by simp
  qed
  from split l r ends show ?thesis by blast
qed

lemma is_run_char_fun: "(\<lambda>x. is_upper x \<or> is_space x) = is_run_char"
  by (simp add: is_run_char_def fun_eq_iff)

lemma is_name_char_fun: "(\<lambda>x. is_alpha x \<or> is_space x) = is_name_char"
  by (simp add: is_name_char_def fun_eq_iff)

lemma takeWhile_maximal:
  assumes "list_all P body" and "rest = [] \<or> \<not> P (hd rest)"
  shows "takeWhile P (body @ rest) = body"
proof -
  from assms(2) have "takeWhile P rest = []" by (cases rest) auto
  moreover from assms(1) have "takeWhile P (body @ rest) = body @ takeWhile P rest"
    by (intro takeWhile_append2) (simp add: list_all_iff)
  ultimately show ?thesis by simp
qed

lemma takeWhile_split:
  "\<exists>rest. xs = takeWhile P xs @ rest \<and> (rest = [] \<or> \<not> P (hd rest))"
proof -
  have "xs = takeWhile P xs @ dropWhile P xs" by simp
  moreover have "dropWhile P xs = [] \<or> \<not> P (hd (dropWhile P xs))"
    using hd_dropWhile [of P xs] by blast
  ultimately show ?thesis by blast
qed

lemma match_upper_run_Some_iff:
  "(match_upper_run s = Some (g, n)) =
     (\<exists>c body rest. s = c # body @ rest \<and> g = c # body \<and> n = length g \<and> is_upper c
        \<and> list_all is_run_char body \<and> 10 \<le> length body \<and> length body \<le> 50
        \<and> (length body = 50 \<or> rest = [] \<or> \<not> is_run_char (hd rest)))"
proof
  assume m: "match_upper_run s = Some (g, n)"
  then obtain c cs where s: "s = c # cs" and c: "is_upper c"
    by (cases s) (auto simp: match_upper_run_def split: if_splits)
  let ?tw = "takeWhile is_run_char cs"
  let ?body = "take 50 ?tw"
  from m s c have g: "g = c # ?body" and n: "n = Suc (length ?body)" and ten: "10 \<le> length ?body"
    by (auto simp: match_upper_run_def Let_def is_run_char_fun split: if_splits)
  obtain rest0 where cs: "cs = ?tw @ rest0" and stop: "rest0 = [] \<or> \<not> is_run_char (hd rest0)"
    using takeWhile_split by blast
  have all: "list_all is_run_char ?body"
    by (auto simp: list_all_iff dest: in_set_takeD set_takeWhileD)
  have "?tw = ?body @ drop 50 ?tw" by simp
  with cs have split: "cs = ?body @ (drop 50 ?tw @ rest0)" by (metis append.assoc)
  have max: "length ?body = 50 \<or> drop 50 ?tw @ rest0 = [] \<or> \<not> is_run_char (hd (drop 50 ?tw @ rest0))"
  proof (cases "length ?tw \<le> 50")
    case True
    with stop show ?thesis by auto
  next
    case False
    then show ?thesis by simp
  qed
  from s split have "s = c # ?body @ (drop 50 ?tw @ rest0)" by simp
  with g n c all ten max show "\<exists>c body rest. s = c # body @ rest \<and> g = c # body \<and> n = length g
      \<and> is_upper c \<and> list_all is_run_char body \<and> 10 \<le> length body \<and> length body \<le> 50
      \<and> (length body = 50 \<or> rest = [] \<or> \<not> is_run_char (hd rest))"
    by (intro exI [of _ c] exI [of _ ?body] exI [of _ "drop 50 ?tw @ rest0"]) simp
next
  assume "\<exists>c body rest. s = c # body @ rest \<and> g = c # body \<and> n = length g \<and> is_upper c
        \<and> list_all is_run_char body \<and> 10 \<le> length body \<and> length body \<le> 50
        \<and> (length body = 50 \<or> rest = [] \<or> \<not> is_run_char (hd rest))"
  then obtain c body rest where s: "s = c # body @ rest" and g: "g = c # body"
    and n: "n = length g" and c: "is_upper c" and all: "list_all is_run_char body"
    and len: "10 \<le> length body" "length body \<le> 50"
    and max: "length body = 50 \<or> rest = [] \<or> \<not> is_run_char (hd rest)"
    by blast
  from all have tw: "takeWhile is_run_char (body @ rest) = body @ takeWhile is_run_char rest"
    by (intro takeWhile_append2) (simp add: list_all_iff)
  have "take 50 (takeWhile is_run_char (body @ rest)) = body"
  proof (cases "length body = 50")
    case True
    with tw show ?thesis by simp
  next
    case False
    with max have "takeWhile is_run_char rest = []" by (cases rest) auto
    with tw len show ?thesis by simp
  qed
  moreover from tw len have "10 \<le> length (takeWhile is_run_char (body @ rest))" by simp
  ultimately show "match_upper_run s = Some (g, n)"
    using s g n c len by (simp add: match_upper_run_def Let_def is_run_char_fun)
qed


lemma upper_not_label_sep: "is_upper c \<Longrightarrow> \<not> is_label_sep c"
  by (auto simp: is_upper_def is_label_sep_def is_space_def)

lemma match_name_label_Some_iff:
  "(match_name_label s = Some (g, n)) =
     (\<exists>seps c body rest. s = ''Name'' @ seps @ c # body @ rest
        \<and> seps \<noteq> [] \<and> list_all is_label_sep seps \<and> is_upper c
        \<and> body \<noteq> [] \<and> list_all is_name_char body
        \<and> (rest = [] \<or> \<not> is_name_char (hd rest))
        \<and> g = c # body \<and> n = 4 + length seps + length g)"
proof
  assume m: "match_name_label s = Some (g, n)"
  then have "starts_with ''Name'' s"
    by (auto simp: match_name_label_def split: if_splits)
  then obtain r where s: "s = ''Name'' @ r" by (auto simp: starts_with_iff)
  let ?seps = "takeWhile is_label_sep r"
  have d4: "drop 4 s = r" using s by simp
  from m s d4 have seps: "?seps \<noteq> []"
    by (auto simp: match_name_label_def Let_def split: if_splits)
  have "drop (4 + length ?seps) s = drop (length ?seps) (drop 4 s)"
    by (simp only: drop_drop add.commute)
  with d4 have dr: "drop (4 + length ?seps) s = dropWhile is_label_sep r"
    by (simp add: dropWhile_eq_drop)
  from m s d4 seps dr obtain c cs where r: "dropWhile is_label_sep r = c # cs"
    and c: "is_upper c"
    and body: "takeWhile is_name_char cs \<noteq> []"
    and g: "g = c # takeWhile is_name_char cs"
    and n: "n = 4 + length ?seps + Suc (length (takeWhile is_name_char cs))"
    by (cases "dropWhile is_label_sep r")
      (auto simp: match_name_label_def Let_def is_name_char_fun split: if_splits)
  obtain rest where cs: "cs = takeWhile is_name_char cs @ rest"
    and stop: "rest = [] \<or> \<not> is_name_char (hd rest)"
    using takeWhile_split by blast
  have "r = ?seps @ dropWhile is_label_sep r" by simp
  with r cs have "r = ?seps @ c # takeWhile is_name_char cs @ rest" by simp
  with s have "s = ''Name'' @ ?seps @ c # takeWhile is_name_char cs @ rest" by simp
  moreover have "list_all is_label_sep ?seps"
    by (auto simp: list_all_iff dest: set_takeWhileD)
  moreover have "list_all is_name_char (takeWhile is_name_char cs)"
    by (auto simp: list_all_iff dest: set_takeWhileD)
  ultimately show "\<exists>seps c body rest. s = ''Name'' @ seps @ c # body @ rest
        \<and> seps \<noteq> [] \<and> list_all is_label_sep seps \<and> is_upper c
        \<and> body \<noteq> [] \<and> list_all is_name_char body
        \<and> (rest = [] \<or> \<not> is_name_char (hd rest))
        \<and> g = c # body \<and> n = 4 + length seps + length g"
    using seps c body stop g n
    by (intro exI [of _ ?seps] exI [of _ c] exI [of _ "takeWhile is_name_char cs"]
        exI [of _ rest]) simp
next
  assume "\<exists>seps c body rest. s = ''Name'' @ seps @ c # body @ rest
        \<and> seps \<noteq> [] \<and> list_all is_label_sep seps \<and> is_upper c
        \<and> body \<noteq> [] \<and> list_all is_name_char body
        \<and> (rest = [] \<or> \<not> is_name_char (hd rest))
        \<and> g = c # body \<and> n = 4 + length seps + length g"
  then obtain seps c body rest where s: "s = ''Name'' @ seps @ c # body @ rest"
    and seps: "seps \<noteq> []" "list_all is_label_sep seps" and c: "is_upper c"
    and body: "body \<noteq> []" "list_all is_name_char body"
    and stop: "rest = [] \<or> \<not> is_name_char (hd rest)"
    and g: "g = c # body" and n: "n = 4 + length seps + length g"
    by blast
  have sw: "starts_with ''Name'' s" using s by (auto simp: starts_with_iff)
  have d4: "drop 4 s = seps @ c # body @ rest" using s by simp
  from c have "\<not> is_label_sep (hd (c # body @ rest))"
    by (simp add: upper_not_label_sep)
  with seps(2) have tw: "takeWhile is_label_sep (seps @ c # body @ rest) = seps"
    by (intro takeWhile_maximal) simp_all
  have "drop (4 + length seps) s = drop (length seps) (drop 4 s)"
    by (simp only: drop_drop add.commute)
  with d4 have dr: "drop (4 + length seps) s = c # body @ rest" by simp
  from body(2) stop have tb: "takeWhile is_name_char (body @ rest) = body"
    by (rule takeWhile_maximal)
  from sw d4 tw dr tb seps(1) c body(1) g n show "match_name_label s = Some (g, n)"
    by (simp add: match_name_label_def Let_def is_name_char_fun)
qed


lemma match_upper_run_length:
  "match_upper_run [] = None" "match_upper_run s = Some (g, n) \<Longrightarrow> 1 \<le> n"
  by (auto simp: match_upper_run_def Let_def split: list.splits if_splits)

lemma match_name_label_length:
  "match_name_label [] = None" "match_name_label s = Some (g, n) \<Longrightarrow> 1 \<le> n"
  by (auto simp: match_name_label_def Let_def split: list.splits if_splits)

lemma raw_text_concat:
  "(if ocr_results = [] then
      raw_text (fst (parse_id_card_data regions ops ocr_results card_image)) = []
    else raw_text (fst (parse_id_card_data regions ops ocr_results card_image)) @ '' ''
      = concat (map (\<lambda>(box, text, conf). text @ '' '') ocr_results))"
proof -
  have comp: "(\<lambda>x. x @ '' '') \<circ> (\<lambda>(box, text, conf). text)
      = (\<lambda>(box, text, conf). text @ '' '')"
    by (auto simp: fun_eq_iff)
  show ?thesis
  proof (cases "ocr_results = []")
    case True
    then show ?thesis by (simp add: parse_id_card_data_def Let_def)
  next
    case False
    then have "map (\<lambda>(box, text, conf). text) ocr_results \<noteq> []" by simp
    from join_space_concat [OF this] False show ?thesis
      by (simp add: parse_id_card_data_def Let_def comp)
  qed
qed

text \<open>
  C8 (as amended). For every OCR result, the texts of the fragments are joined with
  single spaces. The name candidates are the stripped matches, from the left and
  without overlap, of the upper-case pattern in the joined text, followed by those of
  the Name-label pattern, that pass the validity filters (letters and white space
  only, 6 to 30 characters, no denylisted keyword, a space or at least 8 characters,
  a single word of at least 8 characters, at least one vowel in five characters).
  The name returned is the first longest candidate, null when there is no candidate.
  The OCR confidences play no part.
\<close>

theorem name_is_first_longest_candidate:
  "(if ocr_results = [] then
      raw_text (fst (parse_id_card_data regions ops ocr_results card_image)) = []
    else raw_text (fst (parse_id_card_data regions ops ocr_results card_image)) @ '' ''
      = concat (map (\<lambda>(box, text, conf). text @ '' '') ocr_results))
   \<and> (\<exists>runs labelled.
        matches_from match_upper_run
          (raw_text (fst (parse_id_card_data regions ops ocr_results card_image))) 0 runs
        \<and> matches_from match_name_label
          (raw_text (fst (parse_id_card_data regions ops ocr_results card_image))) 0 labelled
        \<and> (case card_name (fst (parse_id_card_data regions ops ocr_results card_image)) of
             None \<Rightarrow> filter is_valid_name (map strip (runs @ labelled)) = []
           | Some n \<Rightarrow>
               (\<exists>pre post.
                  filter is_valid_name (map strip (runs @ labelled)) = pre @ n # post
                  \<and> list_all (\<lambda>c. length c < length n) pre
                  \<and> list_all (\<lambda>c. length c \<le> length n) post)))
   \<and> (\<forall>n. is_valid_name n =
         (let s = upper (strip n)
          in list_all (\<lambda>c. is_alpha c \<or> is_space c) s
             \<and> 6 \<le> length s \<and> length s \<le> 30
             \<and> \<not> list_ex (\<lambda>p. contains p (lower s)) invalid_name_patterns
             \<and> (CHR '' '' \<in> set s \<or> 8 \<le> length s)
             \<and> (case split s of [w] \<Rightarrow> 8 \<le> length w | _ \<Rightarrow> True)
             \<and> length s \<le> 5 * vowel_count (lower s)))"
proof -
  let ?t = "raw_text (fst (parse_id_card_data regions ops ocr_results card_image))"
  let ?runs = "finditer match_upper_run ?t"
  let ?labelled = "finditer match_name_label ?t"
  have runs: "matches_from match_upper_run ?t 0 ?runs"
    using finditer_iff [of match_upper_run ?t ?runs] match_upper_run_length by blast
  have labelled: "matches_from match_name_label ?t 0 ?labelled"
    using finditer_iff [of match_name_label ?t ?labelled] match_name_label_length by blast
  have name: "card_name (fst (parse_id_card_data regions ops ocr_results card_image))
      = extract_name ?t"
    by (simp add: parse_id_card_data_def Let_def)
  have cands: "name_candidates ?t = filter is_valid_name (map strip (?runs @ ?labelled))"
    by (simp add: name_candidates_def)
  have sel: "case extract_name ?t of
             None \<Rightarrow> filter is_valid_name (map strip (?runs @ ?labelled)) = []
           | Some n \<Rightarrow>
               (\<exists>pre post.
                  filter is_valid_name (map strip (?runs @ ?labelled)) = pre @ n # post
                  \<and> list_all (\<lambda>c. length c < length n) pre
                  \<and> list_all (\<lambda>c. length c \<le> length n) post)"
  proof (cases "name_candidates ?t")
    case Nil
    with cands show ?thesis by (simp add: extract_name_def)
  next
    case (Cons c cs)
    from max_by_len_first_longest [of c cs] Cons cands show ?thesis
      by (simp add: extract_name_def)
  qed
  from runs labelled sel have "\<exists>runs labelled.
        matches_from match_upper_run ?t 0 runs \<and> matches_from match_name_label ?t 0 labelled
        \<and> (case card_name (fst (parse_id_card_data regions ops ocr_results card_image)) of
             None \<Rightarrow> filter is_valid_name (map strip (runs @ labelled)) = []
           | Some n \<Rightarrow>
               (\<exists>pre post.
                  filter is_valid_name (map strip (runs @ labelled)) = pre @ n # post
                  \<and> list_all (\<lambda>c. length c < length n) pre
                  \<and> list_all (\<lambda>c. length c \<le> length n) post))"
    unfolding name by blast
  with raw_text_concat [of ocr_results regions ops card_image] is_valid_name_filters
  show ?thesis by blast
qed

text \<open>
  On the three sample fragments the joined text has two matches of the upper-case
  pattern, and the longer one is the name.
\<close>

theorem name_is_first_longest_candidate_witness:
  "card_name (fst (parse_id_card_data ID_CARD_REGIONS sample_ops sample_ocr ()))
     = Some ''ANITA DESHPANDE''
   \<and> raw_text (fst (parse_id_card_data ID_CARD_REGIONS sample_ops sample_ocr ()))
     = ''ANITA DESHPANDE 12345 RAHUL KUMAR J''
   \<and> (\<exists>runs labelled.
        matches_from match_upper_run ''ANITA DESHPANDE 12345 RAHUL KUMAR J'' 0 runs
        \<and> matches_from match_name_label ''ANITA DESHPANDE 12345 RAHUL KUMAR J'' 0 labelled
        \<and> (\<exists>pre post.
              filter is_valid_name (map strip (runs @ labelled))
                = pre @ ''ANITA DESHPANDE'' # post
              \<and> list_all (\<lambda>c. length c < length ''ANITA DESHPANDE'') pre
              \<and> list_all (\<lambda>c. length c \<le> length ''ANITA DESHPANDE'') post))"
proof -
  have raw: "raw_text (fst (parse_id_card_data ID_CARD_REGIONS sample_ops sample_ocr ()))
      = ''ANITA DESHPANDE 12345 RAHUL KUMAR J''"
    by (simp add: parse_id_card_data_def Let_def sample_ocr_def)
  have name: "card_name (fst (parse_id_card_data ID_CARD_REGIONS sample_ops sample_ocr ()))
      = Some ''ANITA DESHPANDE''"
    by (simp add: parse_id_card_data_def Let_def sample_ocr_def extract_name_def
        sample_candidates)
  from name_is_first_longest_candidate [of sample_ocr ID_CARD_REGIONS sample_ops "()"]
  have "\<exists>runs labelled.
        matches_from match_upper_run
          (raw_text (fst (parse_id_card_data ID_CARD_REGIONS sample_ops sample_ocr ()))) 0 runs
        \<and> matches_from match_name_label
          (raw_text (fst (parse_id_card_data ID_CARD_REGIONS sample_ops sample_ocr ()))) 0 labelled
        \<and> (case card_name (fst (parse_id_card_data ID_CARD_REGIONS sample_ops sample_ocr ())) of
             None \<Rightarrow> filter is_valid_name (map strip (runs @ labelled)) = []
           | Some n \<Rightarrow>
               (\<exists>pre post.
                  filter is_valid_name (map strip (runs @ labelled)) = pre @ n # post
                  \<and> list_all (\<lambda>c. length c < length n) pre
                  \<and> list_all (\<lambda>c. length c \<le> length n) post))"
    by blast
  then have "\<exists>runs labelled.
        matches_from match_upper_run ''ANITA DESHPANDE 12345 RAHUL KUMAR J'' 0 runs
        \<and> matches_from match_name_label ''ANITA DESHPANDE 12345 RAHUL KUMAR J'' 0 labelled
        \<and> (\<exists>pre post.
              filter is_valid_name (map strip (runs @ labelled))
                = pre @ ''ANITA DESHPANDE'' # post
              \<and> list_all (\<lambda>c. length c < length ''ANITA DESHPANDE'') pre
              \<and> list_all (\<lambda>c. length c \<le> length ''ANITA DESHPANDE'') post)"
    unfolding raw name by simp
  with raw name show ?thesis by blast
qed

text \<open>
  C8, as stated, fails: of the two valid fragments the longer, ANITA DESHPANDE with
  confidence 0.8, is returned, not RAHUL KUMAR J with confidence 0.99.
\<close>

theorem longest_name_beats_most_confident:
  "extract_name sample_text = Some ''ANITA DESHPANDE''
   \<and> select_name_by_confidence sample_ocr = Some ''RAHUL KUMAR J''"
  by (simp add: sample_text_eq extract_name_def sample_candidates
      select_name_by_confidence_def sample_ocr_def valid_anita valid_rahul invalid_digits
      more_confident_def)

subsection \<open>Department and photo\<close>

lemma find_in_set: "find P xs = Some x \<Longrightarrow> x \<in> set xs"
  by (induction xs) (auto split: if_splits)

lemma normalize_department_canonical:
  "normalize_department k \<in>
     {None, Some ''COMPUTER ENGINEERING'', Some ''MECHANICAL ENGINEERING'',
      Some ''CIVIL ENGINEERING'', Some ''ELECTRICAL ENGINEERING'',
      Some ''ELECTRONICS ENGINEERING'', Some ''INFORMATION TECHNOLOGY''}"
proof (cases "find (\<lambda>(keyword, standard_name). contains keyword (lower k)) valid_departments")
  case None
  then show ?thesis
    by (simp add: normalize_department_def Let_def)
next
  case (Some kv)
  then have "kv \<in> set valid_departments"
    by (rule find_in_set)
  then have "snd kv \<in> snd ` set valid_departments"
    by (rule imageI)
  with Some show ?thesis
    by (cases kv) (auto simp: normalize_department_def Let_def valid_departments_def)
qed

lemma department_loop_canonical:
  "department_loop kws up \<in>
     {None, Some ''COMPUTER ENGINEERING'', Some ''MECHANICAL ENGINEERING'',
      Some ''CIVIL ENGINEERING'', Some ''ELECTRICAL ENGINEERING'',
      Some ''ELECTRONICS ENGINEERING'', Some ''INFORMATION TECHNOLOGY''}"
proof (induction kws)
  case Nil
  show ?case by simp
next
  case (Cons kw kws)
  from normalize_department_canonical [of kw] Cons.IH show ?case
    by (cases "normalize_department kw") (auto simp del: insert_iff)
qed

text \<open>
  C9. For every OCR input, the department that \<open>parse_id_card_data\<close> returns is null
  or one of the six canonical upper-case names.
\<close>

theorem parsed_department_canonical:
  "department (fst (parse_id_card_data regions ops ocr_results card_image)) \<in>
     {None, Some ''COMPUTER ENGINEERING'', Some ''MECHANICAL ENGINEERING'',
      Some ''CIVIL ENGINEERING'', Some ''ELECTRICAL ENGINEERING'',
      Some ''ELECTRONICS ENGINEERING'', Some ''INFORMATION TECHNOLOGY''}"
  using department_loop_canonical [of dept_keywords]
  by (simp add: parse_id_card_data_def Let_def extract_department_def del: insert_iff)

text \<open>
  C10. With the shipped \<open>ID_CARD_REGIONS\<close>, whose photo entry is a 4-tuple,
  \<open>extract_photo_region\<close> returns \<open>None\<close> for every card image and every behaviour
  of the array operations, and \<open>parse_id_card_data\<close> sets photo_extracted to False.
\<close>

theorem photo_never_extracted:
  "extract_photo_region ID_CARD_REGIONS ops card_image = None
   \<and> photo_extracted (fst (parse_id_card_data ID_CARD_REGIONS ops ocr_results card_image)) = False
   \<and> snd (parse_id_card_data ID_CARD_REGIONS ops ocr_results card_image) = None"
proof -
  have item: "region_item ID_CARD_REGIONS ''photo'' field = Inl TypeError" for field
    by (simp add: region_item_def ID_CARD_REGIONS_def)
  have "photo_region ID_CARD_REGIONS ops card_image =
          (case shape2 ops card_image of Inl e \<Rightarrow> Inl e | Inr hw \<Rightarrow> Inl TypeError)"
    by (simp add: photo_region_def bind_err_def item split: sum.splits prod.splits)
  then have "extract_photo_region ID_CARD_REGIONS ops card_image = None"
    by (simp add: extract_photo_region_def split: sum.splits)
  then show ?thesis
    by (simp add: parse_id_card_data_def Let_def)
qed

end
